theory Spec2Isabelle
  imports Main "HOL-Library.Word" "HOL-Library.Extended_Nat" "HOL-Library.Sublist"
begin

unbundle bit_operations_syntax

section \<open>The HyperBloom protocol engine: \<open>lib/protocol/parser.js\<close> and \<open>lib/protocol/stream.js\<close>\<close>

text \<open>
  \<open>Stream\<close> inherits from \<open>Parser\<close>; one record holds the fields of both. A JavaScript
  exception leaves the object as it was mutated up to the throw, so a failing operation
  returns the error together with the state reached: \<open>Inl (error, state)\<close>.
\<close>

subsection \<open>Data\<close>

type_synonym byte = "8 word"
type_synonym buffer = "byte list"

text \<open>The messages of \<open>lib/protocol/messages.js\<close>. A field a caller may leave out of the
  object he hands to the send API is an option; \<open>repeated\<close> fields are lists.\<close>

record open_msg =
  op_feed :: buffer
  op_nonce :: buffer

record handshake_msg =
  hs_id :: buffer
  hs_extensions :: "string list"
  hs_signature :: buffer
  hs_chain :: "buffer list"

record range_msg =
  rg_start :: "buffer option"
  rg_end :: "buffer option"

record sync_msg =
  sy_filter :: "buffer option"
  sy_size :: "nat option"
  sy_n :: "nat option"
  sy_seed :: "nat option"
  sy_limit :: "nat option"
  sy_range :: "range_msg option"

record filter_options_msg =
  fo_size :: "nat option"
  fo_n :: "nat option"

record data_msg =
  dt_values :: "buffer list"

record request_msg =
  rq_start :: "buffer option"
  rq_end :: "buffer option"
  rq_limit :: "nat option"

record link_msg =
  lk_link :: buffer

datatype content =
    Handshake handshake_msg
  | Sync sync_msg
  | FilterOptions filter_options_msg
  | Data data_msg
  | Request request_msg
  | Link link_msg

text \<open>\<open>messages.id\<close>.\<close>

definition HANDSHAKE :: nat where "HANDSHAKE = 0"
definition SYNC :: nat where "SYNC = 1"
definition FILTER_OPTIONS :: nat where "FILTER_OPTIONS = 2"
definition DATA :: nat where "DATA = 3"
definition REQUEST :: nat where "REQUEST = 4"
definition LINK :: nat where "LINK = 5"

datatype error =
    InvalidMagic            \<comment> \<open>'Invalid MAGIC value'\<close>
  | VarintOverflow          \<comment> \<open>'varint doesn't fit into 32-bit value'\<close>
  | LengthTooBig            \<comment> \<open>'Message length is too big'\<close>
  | MessageTooBig           \<comment> \<open>'Message is too big'\<close>
  | InvalidFeedSize         \<comment> \<open>'Invalid feed size'\<close>
  | InvalidNonceSize        \<comment> \<open>'Invalid nonce size'\<close>
  | HandshakeFirst          \<comment> \<open>'Handshake must be the first message after Open'\<close>
  | HandshakeOnce           \<comment> \<open>'Handshake must be sent only once'\<close>
  | ShouldNotBeCalled       \<comment> \<open>'Should not be called'\<close>
  | FeedMismatch            \<comment> \<open>'Feed mismatch'\<close>
  | AssertionFailed         \<comment> \<open>a failed \<open>assert\<close>\<close>
  | RequiredFieldMissing    \<comment> \<open>thrown by \<open>Type.encodingLength\<close> of protocol-buffers\<close>
  | DecodeFailure           \<comment> \<open>thrown by \<open>Type.decode\<close> or \<open>varint.decode\<close>\<close>
  | VerifyFailure           \<comment> \<open>thrown by \<open>HyperBloomChain.verify\<close>\<close>
  | LinkParseFailure        \<comment> \<open>thrown by \<open>HyperBloomChain.parseLink\<close>\<close>
  | NullAccess              \<comment> \<open>a TypeError: a field still \<open>null\<close> is used\<close>
  | OutOfBounds             \<comment> \<open>the buffer holds fewer bytes than are taken\<close>

text \<open>What leaves the engine: the buffers handed to \<open>push\<close>, the events emitted, and the
  callbacks given to \<open>process.nextTick\<close>. A pushed buffer is recorded by the frame it
  encodes: \<open>_open\<close> pushes \<open>MAGIC\<close>, the length and the encoded \<open>Open\<close>; \<open>_send\<close> pushes the
  length, the id and the encoded message, XORed with the outbound keystream. The
  protobuf encoder and the cipher are libraries outside the repository.\<close>

datatype wire =
    WOpen open_msg
  | WFrame nat content

datatype event =
    EvOpen open_msg
  | EvSecure buffer "buffer list"
  | EvMessage string content
  | EvChainUpdate "buffer list"
  | EvClose
  | EvError error
  | EvCallback nat

datatype tick =
    OnOpenTick open_msg     \<comment> \<open>the closure \<open>_onOpen\<close> hands to \<open>_onStart\<close>\<close>
  | SendCallback nat        \<comment> \<open>a caller's callback, named by a number\<close>

datatype pstate = Magic | OpenLength | OpenBody | Paused | MsgLength | MsgBody

record stream =
  local_id :: buffer
  feedKey :: "buffer option"
  feed :: "buffer option"
  privateKey :: "buffer option"
  local_chain :: "buffer list option"
  secure :: bool
  hyperchain :: "buffer option"
  startCallback :: "open_msg option"
  destroyed :: bool
  nonce_local :: "buffer option"
  nonce_remote :: "buffer option"
  nonce_hash :: "buffer option"
  nonce_reverseHash :: "buffer option"
  remote_id :: "buffer option"
  remote_chain :: "buffer list option"
  queue :: "(nat \<times> content \<times> nat option) list option"
  openListener :: bool
  xor_self :: "(buffer \<times> buffer) option"
  xor_remote :: "(buffer \<times> buffer \<times> nat) option"
  pending :: buffer
  pstate :: pstate
  waiting :: enat
  varint_value :: "32 word"
  varint_shift :: nat
  gotHandshake :: bool
  paused_enabled :: bool
  paused_pending :: "buffer option"
  paused_callback :: bool
  pushed :: "wire list"
  events :: "event list"
  ticks :: "tick list"

type_synonym 'a result = "(error \<times> stream) + 'a"

text \<open>The state an operation leaves behind, whether it returned or threw.\<close>

definition outcome :: "stream result \<Rightarrow> stream" where
  "outcome r = (case r of Inl (e, s) \<Rightarrow> s | Inr s \<Rightarrow> s)"

text \<open>The libraries the engine calls (sodium, sodium-signatures, hyperbloom-chain, varint,
  protocol-buffers) are parameters; a call that throws is \<open>None\<close> or \<open>False\<close>.\<close>

record env =
  hash :: "buffer \<Rightarrow> buffer"
  sign :: "buffer \<Rightarrow> buffer \<Rightarrow> buffer"
  chain_verify :: "buffer \<Rightarrow> buffer list \<Rightarrow> buffer \<Rightarrow> buffer \<Rightarrow> bool"
  parseLink :: "buffer \<Rightarrow> (enat \<times> buffer) option"
  issueLink :: "enat \<Rightarrow> buffer \<Rightarrow> buffer \<Rightarrow> buffer"
  keystream :: "buffer \<Rightarrow> buffer \<Rightarrow> nat \<Rightarrow> byte"
  varint_decode :: "buffer \<Rightarrow> (nat \<times> nat) option"
  decode_open :: "buffer \<Rightarrow> open_msg option"
  decode_handshake :: "buffer \<Rightarrow> nat \<Rightarrow> handshake_msg option"
  decode_sync :: "buffer \<Rightarrow> nat \<Rightarrow> sync_msg option"
  decode_filter_options :: "buffer \<Rightarrow> nat \<Rightarrow> filter_options_msg option"
  decode_data :: "buffer \<Rightarrow> nat \<Rightarrow> data_msg option"
  decode_request :: "buffer \<Rightarrow> nat \<Rightarrow> request_msg option"
  decode_link :: "buffer \<Rightarrow> nat \<Rightarrow> link_msg option"

subsection \<open>Constants\<close>

definition MAGIC :: buffer where
  "MAGIC = [0xd5, 0x72, 0xc8, 0x75]"

definition MAX_PENDING_SIZE :: nat where
  "MAX_PENDING_SIZE = 256 * 1024"

definition NONCE_SIZE :: nat where
  "NONCE_SIZE = 24"

text \<open>Modelled from the spec: the constants of the package hyperbloom-constants, which is
  not among the sources.\<close>

definition PUBLIC_KEY_SIZE :: nat where "PUBLIC_KEY_SIZE = 32"
definition PRIVATE_KEY_SIZE :: nat where "PRIVATE_KEY_SIZE = 64"
definition ID_SIZE :: nat where "ID_SIZE = 32"
definition HASH_SIZE :: nat where "HASH_SIZE = 32"
definition MAX_CHAIN_LENGTH :: nat where "MAX_CHAIN_LENGTH = 5"

definition EMPTY_HASH :: buffer where
  "EMPTY_HASH = replicate HASH_SIZE 0"

subsection \<open>Construction\<close>

text \<open>\<open>Parser(id)\<close> followed by the body of \<open>Stream(options)\<close>; \<open>rnd\<close> is what
  \<open>_randomBytes(ID_SIZE)\<close> returns.\<close>

definition init_stream :: "buffer \<Rightarrow> stream" where
  "init_stream i =
     \<lparr> local_id = i, feedKey = None, feed = None, privateKey = None, local_chain = None,
       secure = False, hyperchain = None, startCallback = None, destroyed = False,
       nonce_local = None, nonce_remote = None, nonce_hash = None, nonce_reverseHash = None,
       remote_id = None, remote_chain = None, queue = Some [], openListener = True,
       xor_self = None, xor_remote = None, pending = [], pstate = Magic,
       waiting = enat (length MAGIC), varint_value = 0, varint_shift = 0,
       gotHandshake = False, paused_enabled = False, paused_pending = None,
       paused_callback = False, pushed = [], events = [], ticks = [] \<rparr>"

definition Stream_new :: "buffer option \<Rightarrow> buffer \<Rightarrow> stream option" where
  "Stream_new options_id rnd =
     (let i = (case options_id of Some v \<Rightarrow> v | None \<Rightarrow> rnd)
      in if length i = ID_SIZE then Some (init_stream i) else None)"

subsection \<open>Sending\<close>

text \<open>\<open>Type.encodingLength(content)\<close> throws when a \<open>required\<close> field of the schema is
  not defined; nothing else about the content is looked at.\<close>

fun encodable :: "content \<Rightarrow> bool" where
  "encodable (Handshake b) = True"
| "encodable (Sync b) =
     (sy_filter b \<noteq> None \<and> sy_size b \<noteq> None \<and> sy_n b \<noteq> None \<and> sy_seed b \<noteq> None \<and>
      (case sy_range b of None \<Rightarrow> True | Some r \<Rightarrow> rg_start r \<noteq> None))"
| "encodable (FilterOptions b) = (fo_size b \<noteq> None \<and> fo_n b \<noteq> None)"
| "encodable (Data b) = True"
| "encodable (Request b) = (rq_start b \<noteq> None)"
| "encodable (Link b) = True"

definition send :: "nat \<Rightarrow> content \<Rightarrow> nat option \<Rightarrow> stream \<Rightarrow> stream result" where
  "send i c callback s =
     (if \<not> encodable c then Inl (RequiredFieldMissing, s)
      else case xor_self s of
        None \<Rightarrow> Inl (NullAccess, s)
      | Some x \<Rightarrow>
          Inr (s\<lparr> pushed := pushed s @ [WFrame i c],
                  ticks := ticks s @ (case callback of None \<Rightarrow> [] | Some k \<Rightarrow> [SendCallback k]) \<rparr>))"

definition secureSend :: "nat \<Rightarrow> content \<Rightarrow> nat option \<Rightarrow> stream \<Rightarrow> stream result" where
  "secureSend i c callback s =
     (if \<not> encodable c then Inl (RequiredFieldMissing, s)
      else if \<not> secure s then
        (case queue s of
           None \<Rightarrow> Inl (NullAccess, s)
         | Some q \<Rightarrow> Inr (s\<lparr> queue := Some (q @ [(i, c, callback)]) \<rparr>))
      else send i c callback s)"

text \<open>The public send API.\<close>

definition sync :: "sync_msg \<Rightarrow> nat option \<Rightarrow> stream \<Rightarrow> stream result" where
  "sync body callback s = secureSend SYNC (Sync body) callback s"

definition filterOptions :: "filter_options_msg \<Rightarrow> nat option \<Rightarrow> stream \<Rightarrow> stream result" where
  "filterOptions body callback s = secureSend FILTER_OPTIONS (FilterOptions body) callback s"

definition data :: "data_msg \<Rightarrow> nat option \<Rightarrow> stream \<Rightarrow> stream result" where
  "data body callback s = secureSend DATA (Data body) callback s"

definition request :: "request_msg \<Rightarrow> nat option \<Rightarrow> stream \<Rightarrow> stream result" where
  "request body callback s = secureSend REQUEST (Request body) callback s"

definition destroy :: "stream \<Rightarrow> stream" where
  "destroy s =
     (if destroyed s then s
      else s\<lparr> destroyed := True, events := events s @ [EvClose] \<rparr>)"

subsection \<open>The handlers of \<open>Stream\<close>\<close>

text \<open>\<open>queue.forEach(cb => cb())\<close>: every entry is the closure
  \<open>() => this._secureSend(id, Type, content, callback)\<close>.\<close>

fun run_queue :: "(nat \<times> content \<times> nat option) list \<Rightarrow> stream \<Rightarrow> stream result" where
  "run_queue [] s = Inr s"
| "run_queue ((i, c, callback) # q) s =
     (case secureSend i c callback s of
        Inl e \<Rightarrow> Inl e
      | Inr s' \<Rightarrow> run_queue q s')"

text \<open>The loop of \<open>_onHandshake\<close> over the remote chain: the least expiration and the
  public key of the last link.\<close>

fun scan_links :: "env \<Rightarrow> buffer list \<Rightarrow> enat \<Rightarrow> buffer option \<Rightarrow> (enat \<times> buffer option) option" where
  "scan_links env [] expiration publicKey = Some (expiration, publicKey)"
| "scan_links env (l # ls) expiration publicKey =
     (case parseLink env l of
        None \<Rightarrow> None
      | Some (e, k) \<Rightarrow> scan_links env ls (min expiration e) (Some k))"

text \<open>\<open>_onHandshake\<close>, in the order of the source: the verification, the fields and the
  \<open>secure\<close> event, the queue, the Trust Link. An event is logged where it is emitted; its
  listeners are the caller's code and are not run here. (A listener of \<open>secure\<close> runs between
  \<open>this.secure = true\<close> and the queue; what it would send is pushed there.)\<close>

definition drainQueue :: "stream \<Rightarrow> stream result" where
  "drainQueue s =
     (case queue s of
        None \<Rightarrow> Inl (NullAccess, s)
      | Some q \<Rightarrow> run_queue q (s\<lparr> queue := None \<rparr>))"

definition issueTrustLink :: "env \<Rightarrow> stream \<Rightarrow> stream result" where
  "issueTrustLink env s =
     (case remote_chain s of
        None \<Rightarrow> Inl (NullAccess, s)
      | Some rc \<Rightarrow>
     (case local_chain s of
        None \<Rightarrow> Inl (NullAccess, s)
      | Some c \<Rightarrow>
     if int (length rc) - 1 \<le> int (length c) then Inr s
     else
       (case scan_links env rc \<infinity> None of
          None \<Rightarrow> Inl (LinkParseFailure, s)
        | Some (expiration, None) \<Rightarrow> Inl (NullAccess, s)
        | Some (expiration, Some publicKey) \<Rightarrow>
            (case privateKey s of
               None \<Rightarrow> Inl (NullAccess, s)
             | Some pk \<Rightarrow>
                 secureSend LINK
                   (Link \<lparr> lk_link = issueLink env expiration publicKey pk \<rparr>) None s))))"

definition onHandshake :: "env \<Rightarrow> handshake_msg \<Rightarrow> stream \<Rightarrow> stream result" where
  "onHandshake env body s =
     (case hyperchain s of
        None \<Rightarrow> Inl (NullAccess, s)
      | Some rootKey \<Rightarrow>
     (case nonce_reverseHash s of
        None \<Rightarrow> Inl (NullAccess, s)
      | Some rh \<Rightarrow>
     if \<not> chain_verify env rootKey (hs_chain body) rh (hs_signature body)
     then Inl (VerifyFailure, s)
     else
       (case drainQueue
               (s\<lparr> remote_id := Some (hs_id body), remote_chain := Some (hs_chain body),
                    secure := True,
                    events := events s @ [EvSecure (hs_id body) (hs_chain body)] \<rparr>) of
          Inl e \<Rightarrow> Inl e
        | Inr s2 \<Rightarrow> issueTrustLink env s2)))"

definition onLink :: "env \<Rightarrow> link_msg \<Rightarrow> stream \<Rightarrow> stream result" where
  "onLink env body s =
     (case local_chain s of
        None \<Rightarrow> Inl (NullAccess, s)
      | Some c \<Rightarrow>
     (case remote_chain s of
        None \<Rightarrow> Inl (NullAccess, s)
      | Some rc \<Rightarrow>
     if int (length c) - 1 \<le> int (length rc) then Inr s
     else
       let newChain = rc @ [lk_link body] in
       (case privateKey s of
          None \<Rightarrow> Inl (NullAccess, s)
        | Some pk \<Rightarrow>
       (case hyperchain s of
          None \<Rightarrow> Inl (NullAccess, s)
        | Some rootKey \<Rightarrow>
       if \<not> chain_verify env rootKey newChain EMPTY_HASH (sign env EMPTY_HASH pk)
       then Inl (VerifyFailure, s)
       else Inr (s\<lparr> local_chain := Some newChain,
                      events := events s @ [EvChainUpdate newChain] \<rparr>)))))"

text \<open>\<open>Parser.prototype._onData\<close>; \<open>Stream\<close> does not override it.\<close>

definition onData :: "data_msg \<Rightarrow> stream \<Rightarrow> stream result" where
  "onData body s = Inl (ShouldNotBeCalled, s)"

definition emit_message :: "string \<Rightarrow> content \<Rightarrow> stream \<Rightarrow> stream" where
  "emit_message type body s = s\<lparr> events := events s @ [EvMessage type body] \<rparr>"

subsection \<open>The parser\<close>

definition setState :: "pstate \<Rightarrow> enat \<Rightarrow> stream \<Rightarrow> stream" where
  "setState st w s = s\<lparr> pstate := st, waiting := w \<rparr>"

text \<open>\<open>this._pending.take(n)\<close>.\<close>

definition take_pending :: "enat \<Rightarrow> stream \<Rightarrow> (buffer \<times> stream) result" where
  "take_pending w s =
     (case w of
        enat n \<Rightarrow>
          if n \<le> length (pending s)
          then Inr (take n (pending s), s\<lparr> pending := drop n (pending s) \<rparr>)
          else Inl (OutOfBounds, s)
      | \<infinity> \<Rightarrow> Inl (OutOfBounds, s))"

definition parseMagic :: "stream \<Rightarrow> (bool \<times> stream) result" where
  "parseMagic s =
     (case take_pending (enat (length MAGIC)) s of
        Inl e \<Rightarrow> Inl e
      | Inr (actual, s1) \<Rightarrow>
          if actual \<noteq> MAGIC then Inl (InvalidMagic, s1)
          else Inr (True, setState OpenLength (enat 1) s1))"

text \<open>\<open>_parseLength\<close>: \<open>value\<close> is a 32-bit integer of JavaScript's bitwise operators, whose
  shift count is taken modulo 32; \<open>value >>> 0\<close> reads it unsigned.\<close>

function parseLength :: "stream \<Rightarrow> (bool \<times> stream) result" where
  "parseLength s =
     (case pending s of
        [] \<Rightarrow> Inr (False, s)
      | b # bs \<Rightarrow>
          let msb = b AND 0x80;
              rest = b AND 0x7f;
              s1 = s\<lparr> pending := bs,
                       varint_value := varint_value s OR push_bit (varint_shift s mod 32) (ucast rest),
                       varint_shift := varint_shift s + 7 \<rparr>
          in
          if 25 \<le> varint_shift s1 then Inl (VarintOverflow, s1)
          else if msb = 0 then
            let s2 = setState (if pstate s1 = OpenLength then OpenBody else MsgBody)
                       (enat (unat (varint_value s1))) s1
            in
            if enat MAX_PENDING_SIZE < waiting s2 then Inl (LengthTooBig, s2)
            else Inr (True, s2\<lparr> varint_value := 0, varint_shift := 0 \<rparr>)
          else parseLength s1)"
  by pat_completeness auto
termination
  by (relation "measure (\<lambda>s. length (pending s))") auto

text \<open>\<open>_onStart\<close>, \<open>_onOpen\<close> and the listener \<open>this.once('open', ...)\<close> of the constructor.
  The callback handed to \<open>_onStart\<close> runs on a later tick: see \<open>onOpen_callback\<close>.\<close>

definition onStart :: "open_msg \<Rightarrow> stream \<Rightarrow> stream" where
  "onStart callback s =
     (if feed s \<noteq> None then s\<lparr> ticks := ticks s @ [OnOpenTick callback] \<rparr>
      else s\<lparr> startCallback := Some callback \<rparr>)"

definition onOpen :: "open_msg \<Rightarrow> stream \<Rightarrow> stream" where
  "onOpen m s = onStart m s"

definition emit_open :: "open_msg \<Rightarrow> stream \<Rightarrow> stream" where
  "emit_open m s =
     (let s1 = s\<lparr> events := events s @ [EvOpen m] \<rparr>
      in if openListener s1 then onOpen m (s1\<lparr> openListener := False \<rparr>) else s1)"

definition parseOpen :: "env \<Rightarrow> stream \<Rightarrow> (bool \<times> stream) result" where
  "parseOpen env s =
     (case take_pending (waiting s) s of
        Inl e \<Rightarrow> Inl e
      | Inr (raw, s0) \<Rightarrow>
          let s1 = setState Paused \<infinity> s0 in
          (case decode_open env raw of
             None \<Rightarrow> Inl (DecodeFailure, s1)
           | Some m \<Rightarrow>
               if length (op_feed m) \<noteq> HASH_SIZE then Inl (InvalidFeedSize, s1)
               else if length (op_nonce m) \<noteq> NONCE_SIZE then Inl (InvalidNonceSize, s1)
               else if paused_enabled s1 then Inl (AssertionFailed, s1)
               else
                 (case take_pending (enat (length (pending s1))) s1 of
                    Inl e \<Rightarrow> Inl e
                  | Inr (p, s2) \<Rightarrow>
                      Inr (True,
                        emit_open m (s2\<lparr> paused_pending := Some p, paused_enabled := True \<rparr>)))))"

text \<open>The rest of \<open>_parse\<close>, for a message body: the choice of the type by the id, the two
  handshake checks, the decoding and the call of the handler.\<close>

definition dispatch :: "env \<Rightarrow> nat \<Rightarrow> buffer \<Rightarrow> nat \<Rightarrow> stream \<Rightarrow> stream result" where
  "dispatch env i msg offset s =
     (if i = HANDSHAKE then
        (case decode_handshake env msg offset of
           None \<Rightarrow> Inl (DecodeFailure, s)
         | Some body \<Rightarrow> onHandshake env body s)
      else if i = SYNC then
        (case decode_sync env msg offset of
           None \<Rightarrow> Inl (DecodeFailure, s)
         | Some body \<Rightarrow> Inr (emit_message ''sync'' (Sync body) s))
      else if i = FILTER_OPTIONS then
        (case decode_filter_options env msg offset of
           None \<Rightarrow> Inl (DecodeFailure, s)
         | Some body \<Rightarrow> Inr (emit_message ''filter-options'' (FilterOptions body) s))
      else if i = DATA then
        (case decode_data env msg offset of
           None \<Rightarrow> Inl (DecodeFailure, s)
         | Some body \<Rightarrow> onData body s)
      else if i = REQUEST then
        (case decode_request env msg offset of
           None \<Rightarrow> Inl (DecodeFailure, s)
         | Some body \<Rightarrow> Inr (emit_message ''request'' (Request body) s))
      else
        (case decode_link env msg offset of
           None \<Rightarrow> Inl (DecodeFailure, s)
         | Some body \<Rightarrow> onLink env body s))"

definition known_id :: "nat \<Rightarrow> bool" where
  "known_id i =
     (i = HANDSHAKE \<or> i = SYNC \<or> i = FILTER_OPTIONS \<or> i = DATA \<or> i = REQUEST \<or> i = LINK)"

definition parseMessage :: "env \<Rightarrow> stream \<Rightarrow> (bool \<times> stream) result" where
  "parseMessage env s =
     (case take_pending (waiting s) s of
        Inl e \<Rightarrow> Inl e
      | Inr (msg, s0) \<Rightarrow>
          let s1 = setState MsgLength (enat 1) s0 in
          (case varint_decode env msg of
             None \<Rightarrow> Inl (DecodeFailure, s1)
           | Some (i, offset) \<Rightarrow>
               if \<not> known_id i then Inr (True, s1)
               else if \<not> gotHandshake s1 \<and> i \<noteq> HANDSHAKE then Inl (HandshakeFirst, s1)
               else if gotHandshake s1 \<and> i = HANDSHAKE then Inl (HandshakeOnce, s1)
               else
                 (case dispatch env i msg offset (s1\<lparr> gotHandshake := True \<rparr>) of
                    Inl e \<Rightarrow> Inl e
                  | Inr s3 \<Rightarrow> Inr (True, s3))))"

definition parse :: "env \<Rightarrow> stream \<Rightarrow> (bool \<times> stream) result" where
  "parse env s =
     (if pstate s = Magic then parseMagic s
      else if pstate s = OpenLength \<or> pstate s = MsgLength then parseLength s
      else if pstate s = OpenBody then parseOpen env s
      else parseMessage env s)"

subsection \<open>The handlers touch no field of the parser\<close>

definition handler_frame :: "stream \<Rightarrow> stream \<Rightarrow> bool" where
  "handler_frame s s' =
     (s' = s\<lparr> local_chain := local_chain s', secure := secure s', remote_id := remote_id s',
              remote_chain := remote_chain s', queue := queue s', pushed := pushed s',
              events := events s', ticks := ticks s' \<rparr>)"

lemma handler_frame_refl: "handler_frame s s"
  by (simp add: handler_frame_def)

lemma handler_frame_trans: "handler_frame s t \<Longrightarrow> handler_frame t u \<Longrightarrow> handler_frame s u"
  by (cases s, cases t, cases u) (simp add: handler_frame_def)

lemma handler_frame_fields:
  assumes "handler_frame s s'"
  shows "pending s' = pending s" "pstate s' = pstate s" "waiting s' = waiting s"
    "varint_value s' = varint_value s" "varint_shift s' = varint_shift s"
    "gotHandshake s' = gotHandshake s" "paused_enabled s' = paused_enabled s"
    "paused_pending s' = paused_pending s" "paused_callback s' = paused_callback s"
    "xor_remote s' = xor_remote s" "xor_self s' = xor_self s" "privateKey s' = privateKey s"
    "hyperchain s' = hyperchain s" "feed s' = feed s" "feedKey s' = feedKey s"
    "destroyed s' = destroyed s" "local_id s' = local_id s"
    "nonce_local s' = nonce_local s" "nonce_remote s' = nonce_remote s"
    "nonce_hash s' = nonce_hash s" "nonce_reverseHash s' = nonce_reverseHash s"
    "startCallback s' = startCallback s" "openListener s' = openListener s"
  using assms unfolding handler_frame_def
  by (cases s, cases s', simp)+

lemma send_frame: "handler_frame s (outcome (send i c cb s))"
  by (simp add: send_def outcome_def handler_frame_def split: option.splits)

lemma secureSend_frame: "handler_frame s (outcome (secureSend i c cb s))"
  using send_frame [of s i c cb]
  by (simp add: secureSend_def outcome_def handler_frame_def split: option.splits)


lemma run_queue_frame: "handler_frame s (outcome (run_queue q s))"
proof (induction q arbitrary: s)
  case Nil
  show ?case by (simp add: outcome_def handler_frame_refl)
next
  case (Cons a q)
  obtain i c cb where a: "a = (i, c, cb)" by (cases a)
  show ?case
  proof (cases "secureSend i c cb s")
    case (Inl e)
    then show ?thesis using secureSend_frame [of s i c cb] a
      by (simp add: outcome_def)
  next
    case (Inr s')
    then have "handler_frame s s'" using secureSend_frame [of s i c cb]
      by (simp add: outcome_def)
    then show ?thesis using Cons.IH [of s'] Inr a
      by (auto intro: handler_frame_trans)
  qed
qed

lemma onLink_frame: "handler_frame s (outcome (onLink env body s))"
  by (simp add: onLink_def outcome_def handler_frame_def Let_def split: option.splits)

lemma onData_frame: "handler_frame s (outcome (onData body s))"
  by (simp add: onData_def outcome_def handler_frame_def)

lemma emit_message_frame: "handler_frame s (emit_message ty body s)"
  by (simp add: emit_message_def handler_frame_def)

lemma outcome_simps [simp]: "outcome (Inl (e, s)) = s" "outcome (Inr s) = s"
  by (simp_all add: outcome_def)

lemma drainQueue_frame: "handler_frame s (outcome (drainQueue s))"
proof (cases "queue s")
  case None
  then show ?thesis by (simp add: drainQueue_def handler_frame_refl)
next
  case (Some q)
  have "handler_frame s (s\<lparr>queue := None\<rparr>)" by (simp add: handler_frame_def)
  then show ?thesis using Some run_queue_frame [of "s\<lparr>queue := None\<rparr>" q]
    by (auto simp: drainQueue_def intro: handler_frame_trans)
qed

lemma issueTrustLink_frame: "handler_frame s (outcome (issueTrustLink env s))"
  using secureSend_frame [of s]
  by (simp add: issueTrustLink_def handler_frame_refl split: option.splits)

lemma onHandshake_frame: "handler_frame s (outcome (onHandshake env body s))"
proof -
  let ?s1 = "s\<lparr> remote_id := Some (hs_id body), remote_chain := Some (hs_chain body),
                  secure := True,
                  events := events s @ [EvSecure (hs_id body) (hs_chain body)] \<rparr>"
  have f1: "handler_frame s ?s1"
    by (simp add: handler_frame_def)
  have f2: "handler_frame s (outcome (drainQueue ?s1))"
    using f1 drainQueue_frame handler_frame_trans by blast
  have f3: "handler_frame s (outcome (case drainQueue ?s1 of Inl e \<Rightarrow> Inl e | Inr s2 \<Rightarrow> issueTrustLink env s2))"
  proof (cases "drainQueue ?s1")
    case (Inl e)
    then show ?thesis using f2 by (cases e) simp
  next
    case (Inr s2)
    then show ?thesis using f2 issueTrustLink_frame [of s2 env]
      by (auto intro: handler_frame_trans)
  qed
  show ?thesis using f3
    by (simp add: onHandshake_def handler_frame_refl split: option.splits)
qed

lemma dispatch_frame: "handler_frame s (outcome (dispatch env i msg off s))"
  using onHandshake_frame [of s env] onLink_frame [of s env] onData_frame [of s]
    emit_message_frame [of s]
  by (simp add: dispatch_def handler_frame_refl split: option.splits)


subsection \<open>The processing loop\<close>

definition rank :: "stream \<Rightarrow> nat" where
  "rank s = 3 * length (pending s) +
     (case pstate s of OpenBody \<Rightarrow> 2 | Paused \<Rightarrow> 1 | MsgBody \<Rightarrow> 1 | _ \<Rightarrow> 0)"

declare parseLength.simps [simp del]

lemma parseLength_consumes:
  "parseLength s = Inr (True, s') \<Longrightarrow>
     length (pending s') < length (pending s) \<and> (pstate s' = OpenBody \<or> pstate s' = MsgBody)"
proof (induction s rule: parseLength.induct)
  case (1 s)
  show ?case
  proof (cases "pending s")
    case Nil
    then show ?thesis using "1.prems" by (simp add: parseLength.simps [of s])
  next
    case (Cons b bs)
    let ?s1 = "s\<lparr> pending := bs,
                   varint_value := varint_value s OR push_bit (varint_shift s mod 32) (ucast (b AND 0x7f)),
                   varint_shift := varint_shift s + 7 \<rparr>"
    show ?thesis
    proof (cases "b AND 0x80 = 0")
      case True
      then show ?thesis using "1.prems" Cons
        by (auto simp: parseLength.simps [of s] Let_def setState_def split: if_splits)
    next
      case False
      have rec: "parseLength ?s1 = Inr (True, s')"
        using "1.prems" Cons False
        by (simp add: parseLength.simps [of s] Let_def split: if_splits)
      have "\<not> 25 \<le> varint_shift ?s1"
        using "1.prems" Cons False
        by (auto simp: parseLength.simps [of s] Let_def split: if_splits)
      then have "length (pending s') < length (pending ?s1) \<and> (pstate s' = OpenBody \<or> pstate s' = MsgBody)"
        using "1.IH" [OF Cons refl refl refl _ False rec] by simp
      then show ?thesis using Cons by simp
    qed
  qed
qed

lemma emit_open_parser: "pending (emit_open m s) = pending s" "pstate (emit_open m s) = pstate s"
  by (simp_all add: emit_open_def onOpen_def onStart_def Let_def)

lemma dispatch_Inr_parser:
  assumes "dispatch env i msg off s = Inr s'"
  shows "pending s' = pending s \<and> pstate s' = pstate s"
proof -
  have "handler_frame s s'" using dispatch_frame [of s env i msg off] assms by simp
  from handler_frame_fields(1,2) [OF this] show ?thesis by simp
qed

lemma parse_decreases:
  assumes "parse env s = Inr (True, s')"
  shows "rank s' < rank s"
proof -
  consider (magic) "pstate s = Magic" | (len) "pstate s = OpenLength \<or> pstate s = MsgLength"
    | (body) "pstate s = OpenBody" | (msg) "pstate s = Paused \<or> pstate s = MsgBody"
    by (cases "pstate s") auto
  then show ?thesis
  proof cases
    case magic
    then show ?thesis using assms
      by (auto simp: parse_def parseMagic_def take_pending_def setState_def rank_def MAGIC_def
          split: if_splits)
  next
    case len
    then have "parseLength s = Inr (True, s')" using assms by (auto simp: parse_def)
    from parseLength_consumes [OF this] show ?thesis using len
      by (auto simp: rank_def)
  next
    case body
    then show ?thesis using assms
      by (auto simp: parse_def parseOpen_def take_pending_def setState_def rank_def Let_def
          emit_open_parser split: if_splits enat.splits option.splits)
  next
    case msg
    then have pm: "parseMessage env s = Inr (True, s')" using assms by (auto simp: parse_def)
    obtain n where w: "waiting s = enat n" "n \<le> length (pending s)"
      using pm by (auto simp: parseMessage_def take_pending_def split: enat.splits if_splits)
    let ?s1 = "setState MsgLength (enat 1) (s\<lparr>pending := drop n (pending s)\<rparr>)"
    have "pending s' = pending ?s1 \<and> pstate s' = pstate ?s1"
      using pm w
      by (auto simp: parseMessage_def take_pending_def Let_def setState_def
          split: option.splits if_splits sum.splits dest!: dispatch_Inr_parser)
    then show ?thesis using msg by (auto simp: rank_def setState_def)
  qed
qed

text \<open>The loop of \<open>_process\<close>: \<open>while (this._pending.size >= this._waiting)\<close>.\<close>

function process_loop :: "env \<Rightarrow> stream \<Rightarrow> stream result" where
  "process_loop env s =
     (if waiting s \<le> enat (length (pending s)) then
        (case parse env s of
           Inl e \<Rightarrow> Inl e
         | Inr (continue, s') \<Rightarrow> if continue then process_loop env s' else Inr s')
      else Inr s)"
  by pat_completeness auto
termination
  by (relation "measure (\<lambda>(env, s). rank s)") (auto dest: parse_decreases)

declare process_loop.simps [simp del]

text \<open>\<open>_process(cb)\<close>. The callback of a write is not called while the parser is paused;
  \<open>paused_callback\<close> says that one is withheld.\<close>

definition process :: "env \<Rightarrow> stream \<Rightarrow> stream result" where
  "process env s =
     (case process_loop env s of
        Inl e \<Rightarrow> Inl e
      | Inr s1 \<Rightarrow>
          if MAX_PENDING_SIZE \<le> length (pending s1) then Inl (MessageTooBig, s1)
          else if paused_enabled s1 then
            (if paused_callback s1 then Inl (AssertionFailed, s1)
             else Inr (s1\<lparr> paused_callback := True \<rparr>))
          else Inr s1)"

text \<open>The XSalsa20 instance \<open>crypto_stream_xor_instance(nonce, key)\<close>: its nonce, its key
  and the number of bytes it has processed.\<close>

definition xor_update :: "env \<Rightarrow> buffer \<times> buffer \<times> nat \<Rightarrow> buffer \<Rightarrow> buffer \<times> (buffer \<times> buffer \<times> nat)" where
  "xor_update env x bytes =
     (case x of (nonce, key, pos) \<Rightarrow>
        (map (\<lambda>(k, b). b XOR keystream env nonce key (pos + k)) (List.enumerate 0 bytes),
         (nonce, key, pos + length bytes)))"

text \<open>\<open>Parser.prototype._write\<close>.\<close>

definition write_chunk :: "env \<Rightarrow> buffer \<Rightarrow> stream \<Rightarrow> stream result" where
  "write_chunk env chunk s =
     (case xor_remote s of
        None \<Rightarrow> process env (s\<lparr> pending := pending s @ chunk \<rparr>)
      | Some x \<Rightarrow>
          (case xor_update env x chunk of
             (plain, x') \<Rightarrow>
               process env (s\<lparr> xor_remote := Some x', pending := pending s @ plain \<rparr>)))"

definition resumeParsing :: "env \<Rightarrow> stream \<Rightarrow> stream result" where
  "resumeParsing env s =
     (let s1 = (setState MsgLength (enat 1) s)\<lparr> paused_enabled := False \<rparr>;
          p = paused_pending s1;
          s2 = s1\<lparr> paused_pending := None \<rparr>
      in
      (case xor_remote s2 of
         None \<Rightarrow> Inl (NullAccess, s2)
       | Some x \<Rightarrow>
           (case p of
              None \<Rightarrow> Inl (NullAccess, s2)
            | Some bytes \<Rightarrow>
                (case xor_update env x bytes of
                   (plain, x') \<Rightarrow>
                     process env
                       (s2\<lparr> xor_remote := Some x', pending := pending s2 @ plain,
                            paused_callback := False \<rparr>)))))"

subsection \<open>Opening and starting\<close>

text \<open>\<open>_handshake\<close>.\<close>

definition handshake :: "env \<Rightarrow> stream \<Rightarrow> stream result" where
  "handshake env s =
     (case nonce_hash s of
        None \<Rightarrow> Inl (NullAccess, s)
      | Some h \<Rightarrow>
          (case privateKey s of
             None \<Rightarrow> Inl (NullAccess, s)
           | Some pk \<Rightarrow>
               send HANDSHAKE
                 (Handshake \<lparr> hs_id = local_id s, hs_extensions = [],
                              hs_signature = sign env h pk,
                              hs_chain = (case local_chain s of None \<Rightarrow> [] | Some c \<Rightarrow> c) \<rparr>)
                 None s))"

text \<open>The closure \<open>_onOpen\<close> hands to \<open>_onStart\<close>, run on a later tick.\<close>

definition onOpen_callback :: "env \<Rightarrow> open_msg \<Rightarrow> stream \<Rightarrow> stream result" where
  "onOpen_callback env m s =
     (case feed s of
        None \<Rightarrow> Inl (NullAccess, s)
      | Some f \<Rightarrow>
          if op_feed m \<noteq> f then Inr (s\<lparr> events := events s @ [EvError FeedMismatch] \<rparr>)
          else
            let s1 = s\<lparr> nonce_remote := Some (op_nonce m) \<rparr> in
            (case nonce_local s1 of
               None \<Rightarrow> Inl (NullAccess, s1)
             | Some l \<Rightarrow>
                 let s2 = s1\<lparr> nonce_hash := Some (hash env (l @ op_nonce m)),
                               nonce_reverseHash := Some (hash env (op_nonce m @ l)),
                               nonce_local := None, nonce_remote := None \<rparr>
                 in
                 (case feedKey s2 of
                    None \<Rightarrow> Inl (NullAccess, s2)
                  | Some k \<Rightarrow>
                      (case handshake env (s2\<lparr> xor_remote := Some (op_nonce m, k, 0) \<rparr>) of
                         Inl e \<Rightarrow> Inl e
                       | Inr s4 \<Rightarrow> resumeParsing env s4))))"

text \<open>\<open>_open\<close>; \<open>rnd\<close> is what \<open>_randomBytes(NONCE_SIZE)\<close> returns.\<close>

definition stream_open :: "buffer \<Rightarrow> stream \<Rightarrow> stream result" where
  "stream_open rnd s =
     (let s1 = s\<lparr> nonce_local := Some rnd \<rparr> in
      (case feed s1 of
         None \<Rightarrow> Inl (RequiredFieldMissing, s1)
       | Some f \<Rightarrow>
           let s2 = s1\<lparr> pushed := pushed s1 @ [WOpen \<lparr> op_feed = f, op_nonce = rnd \<rparr>] \<rparr> in
           (case feedKey s2 of
              None \<Rightarrow> Inl (NullAccess, s2)
            | Some k \<Rightarrow> Inr (s2\<lparr> xor_self := Some (rnd, k) \<rparr>))))"

record start_options =
  o_feedKey :: "buffer option"
  o_privateKey :: "buffer option"
  o_chain :: "buffer list option"
  o_discoveryKey :: "buffer option"

definition start :: "env \<Rightarrow> start_options \<Rightarrow> buffer \<Rightarrow> stream \<Rightarrow> stream result" where
  "start env options rnd s =
     (case o_feedKey options of
        None \<Rightarrow> Inl (AssertionFailed, s)
      | Some fk \<Rightarrow>
     if length fk \<noteq> PUBLIC_KEY_SIZE then Inl (AssertionFailed, s)
     else
     (case o_privateKey options of
        None \<Rightarrow> Inl (AssertionFailed, s)
      | Some pk \<Rightarrow>
     if length pk \<noteq> PRIVATE_KEY_SIZE then Inl (AssertionFailed, s)
     else
     (case o_chain options of
        None \<Rightarrow> Inl (AssertionFailed, s)
      | Some c \<Rightarrow>
     if \<not> length c \<le> MAX_CHAIN_LENGTH then Inl (AssertionFailed, s)
     else
       let fd = (case o_discoveryKey options of Some d \<Rightarrow> d | None \<Rightarrow> hash env fk);
           s1 = s\<lparr> feedKey := Some fk, feed := Some fd \<rparr>
       in
       if length fd \<noteq> HASH_SIZE then Inl (AssertionFailed, s1)
       else
         let s2 = s1\<lparr> privateKey := Some pk, local_chain := Some c, hyperchain := Some fk \<rparr> in
         if \<not> chain_verify env fk c EMPTY_HASH (sign env EMPTY_HASH pk)
         then Inl (VerifyFailure, s2)
         else
           (case stream_open rnd s2 of
              Inl e \<Rightarrow> Inl e
            | Inr s3 \<Rightarrow>
                (case startCallback s3 of
                   None \<Rightarrow> Inr s3
                 | Some cb \<Rightarrow> Inr (s3\<lparr> ticks := ticks s3 @ [OnOpenTick cb] \<rparr>))))))"

subsection \<open>The scheduler and the session as a whole\<close>

text \<open>The first callback given to \<open>process.nextTick\<close> runs.\<close>

definition run_tick :: "env \<Rightarrow> stream \<Rightarrow> stream result" where
  "run_tick env s =
     (case ticks s of
        [] \<Rightarrow> Inr s
      | t # ts \<Rightarrow>
          (case t of
             OnOpenTick m \<Rightarrow> onOpen_callback env m (s\<lparr> ticks := ts \<rparr>)
           | SendCallback k \<Rightarrow> Inr (s\<lparr> ticks := ts, events := events s @ [EvCallback k] \<rparr>)))"

text \<open>What can happen to a session: a call of its API, a chunk written to it, a tick.\<close>

datatype action =
    Start start_options buffer
  | WriteChunk buffer
  | Tick
  | CallSync sync_msg "nat option"
  | CallFilterOptions filter_options_msg "nat option"
  | CallData data_msg "nat option"
  | CallRequest request_msg "nat option"
  | Destroy

fun step :: "env \<Rightarrow> action \<Rightarrow> stream \<Rightarrow> stream result" where
  "step env (Start options rnd) s = start env options rnd s"
| "step env (WriteChunk chunk) s = write_chunk env chunk s"
| "step env Tick s = run_tick env s"
| "step env (CallSync body callback) s = sync body callback s"
| "step env (CallFilterOptions body callback) s = filterOptions body callback s"
| "step env (CallData body callback) s = data body callback s"
| "step env (CallRequest body callback) s = request body callback s"
| "step env Destroy s = Inr (destroy s)"

text \<open>A session's history: the state each action leaves, thrown or not, is where the
  next one starts.\<close>

fun exec :: "env \<Rightarrow> action list \<Rightarrow> stream \<Rightarrow> stream" where
  "exec env [] s = s"
| "exec env (a # as) s = exec env as (outcome (step env a s))"

subsection \<open>Concrete values for the examples\<close>

text \<open>A toy instance of the libraries. A private key is its public key followed by 32
  more bytes, a signature is the signed hash followed by the signer's public key, a link
  is the public key it hands the trust to, the cipher's keystream is zero, a varint is
  one byte, and the decoders cut their fields out of the bytes at fixed places.\<close>

definition env0 :: env where
  "env0 =
     \<lparr> hash = (\<lambda>b. take 32 (rev b)),
       sign = (\<lambda>h sk. h @ take 32 sk),
       chain_verify = (\<lambda>rootKey links h sig. sig = h @ (if links = [] then rootKey else last links)),
       parseLink = (\<lambda>l. Some (\<infinity>, l)),
       issueLink = (\<lambda>expiration pk sk. pk),
       keystream = (\<lambda>nonce key k. 0),
       varint_decode = (\<lambda>b. case b of [] \<Rightarrow> None | x # xs \<Rightarrow> Some (unat x, 1)),
       decode_open = (\<lambda>raw. Some \<lparr> op_feed = take 32 raw, op_nonce = drop 32 raw \<rparr>),
       decode_handshake = (\<lambda>msg off.
          Some \<lparr> hs_id = take 32 (drop off msg), hs_extensions = [],
                 hs_signature = take 64 (drop (off + 32) msg),
                 hs_chain = (let r = drop (off + 96) msg
                             in if r = [] then [] else if length r \<le> 32 then [r]
                                else [take 32 r, drop 32 r]) \<rparr>),
       decode_sync = (\<lambda>msg off. None),
       decode_filter_options = (\<lambda>msg off. None),
       decode_data = (\<lambda>msg off. Some \<lparr> dt_values = map (\<lambda>b. [b]) (drop off msg) \<rparr>),
       decode_request = (\<lambda>msg off.
          Some \<lparr> rq_start = Some (drop off msg), rq_end = None, rq_limit = Some 0 \<rparr>),
       decode_link = (\<lambda>msg off. Some \<lparr> lk_link = drop off msg \<rparr>) \<rparr>"

definition id0 :: buffer where
  "id0 = replicate 32 0"

definition request_a :: request_msg where
  "request_a = \<lparr> rq_start = Some [0x61], rq_end = None, rq_limit = None \<rparr>"

definition request_limit0 :: request_msg where
  "request_limit0 = \<lparr> rq_start = Some [0x61], rq_end = None, rq_limit = Some 0 \<rparr>"

text \<open>A session \<open>A\<close> whose key pair is the feed's, from its construction to the point where
  it has sent its handshake and waits for the peer's.\<close>

definition fk0 :: buffer where "fk0 = replicate 32 7"
definition sk0 :: buffer where "sk0 = replicate 32 7 @ replicate 32 9"
definition nonce_a :: buffer where "nonce_a = replicate 24 1"
definition nonce_b :: buffer where "nonce_b = replicate 24 2"

definition opts0 :: start_options where
  "opts0 = \<lparr> o_feedKey = Some fk0, o_privateKey = Some sk0, o_chain = Some [], o_discoveryKey = None \<rparr>"

definition open_b :: open_msg where
  "open_b = \<lparr> op_feed = fk0, op_nonce = nonce_b \<rparr>"

definition open_b_chunk :: buffer where
  "open_b_chunk = MAGIC @ [56] @ fk0 @ nonce_b"

definition s_started :: stream where
  "s_started = (init_stream id0)\<lparr> feedKey := Some fk0, feed := Some fk0, privateKey := Some sk0,
      local_chain := Some [], hyperchain := Some fk0, nonce_local := Some nonce_a,
      pushed := [WOpen \<lparr> op_feed = fk0, op_nonce = nonce_a \<rparr>], xor_self := Some (nonce_a, fk0) \<rparr>"

definition s_paused :: stream where
  "s_paused = s_started\<lparr> openListener := False, pstate := Paused, waiting := \<infinity>,
     paused_enabled := True, paused_pending := Some [], paused_callback := True,
     events := [EvOpen open_b], ticks := [OnOpenTick open_b] \<rparr>"

definition hs_a :: handshake_msg where
  "hs_a = \<lparr> hs_id = id0, hs_extensions = [],
            hs_signature = (replicate 24 2 @ replicate 8 1) @ fk0, hs_chain = [] \<rparr>"

definition s_resumed :: stream where
  "s_resumed = s_paused\<lparr> nonce_local := None,
     nonce_hash := Some (replicate 24 2 @ replicate 8 1),
     nonce_reverseHash := Some (replicate 24 1 @ replicate 8 2),
     xor_remote := Some (nonce_b, fk0, 0), pstate := MsgLength, waiting := enat 1,
     paused_enabled := False, paused_pending := None, paused_callback := False,
     pushed := [WOpen \<lparr> op_feed = fk0, op_nonce = nonce_a \<rparr>, WFrame HANDSHAKE (Handshake hs_a)],
     ticks := [] \<rparr>"

text \<open>The toy cipher leaves the bytes as they are.\<close>

lemma xor_update_env0: "xor_update env0 (n, k, pos) bs = (bs, (n, k, pos + length bs))"
proof -
  have "(\<lambda>(j :: nat, b :: byte). b) = snd" by auto
  then show ?thesis by (simp add: xor_update_def env0_def map_snd_enumerate)
qed

text \<open>The definitions a concrete run unfolds.\<close>

lemma env0_fields:
  "hash env0 = (\<lambda>b. take 32 (rev b))"
  "sign env0 = (\<lambda>h sk. h @ take 32 sk)"
  "chain_verify env0 = (\<lambda>rootKey links h sig. sig = h @ (if links = [] then rootKey else last links))"
  "parseLink env0 = (\<lambda>l. Some (\<infinity>, l))"
  "issueLink env0 = (\<lambda>expiration pk sk. pk)"
  "varint_decode env0 = (\<lambda>b. case b of [] \<Rightarrow> None | x # xs \<Rightarrow> Some (unat x, 1))"
  "decode_open env0 = (\<lambda>raw. Some \<lparr> op_feed = take 32 raw, op_nonce = drop 32 raw \<rparr>)"
  "decode_handshake env0 = (\<lambda>msg off.
          Some \<lparr> hs_id = take 32 (drop off msg), hs_extensions = [],
                 hs_signature = take 64 (drop (off + 32) msg),
                 hs_chain = (let r = drop (off + 96) msg
                             in if r = [] then [] else if length r \<le> 32 then [r]
                                else [take 32 r, drop 32 r]) \<rparr>)"
  "decode_sync env0 = (\<lambda>msg off. None)"
  "decode_filter_options env0 = (\<lambda>msg off. None)"
  "decode_data env0 = (\<lambda>msg off. Some \<lparr> dt_values = map (\<lambda>b. [b]) (drop off msg) \<rparr>)"
  "decode_request env0 = (\<lambda>msg off.
          Some \<lparr> rq_start = Some (drop off msg), rq_end = None, rq_limit = Some 0 \<rparr>)"
  "decode_link env0 = (\<lambda>msg off. Some \<lparr> lk_link = drop off msg \<rparr>)"
  by (simp_all add: env0_def)

lemmas eval_defs = xor_update_env0 env0_fields fk0_def sk0_def nonce_a_def nonce_b_def id0_def
  PUBLIC_KEY_SIZE_def PRIVATE_KEY_SIZE_def MAX_CHAIN_LENGTH_def HASH_SIZE_def NONCE_SIZE_def
  EMPTY_HASH_def MAX_PENDING_SIZE_def MAGIC_def
  HANDSHAKE_def SYNC_def FILTER_OPTIONS_def DATA_def REQUEST_def LINK_def known_id_def
  init_stream_def Let_def
  write_chunk_def process_def process_loop.simps parse_def parseMagic_def parseLength.simps
  parseOpen_def parseMessage_def dispatch_def take_pending_def setState_def emit_open_def
  onOpen_def onStart_def
  onHandshake_def drainQueue_def issueTrustLink_def onLink_def onData_def emit_message_def
  secureSend_def send_def run_tick_def onOpen_callback_def handshake_def resumeParsing_def
  start_def stream_open_def

lemma start_reaches: "start env0 opts0 nonce_a (init_stream id0) = Inr s_started"
  by (simp add: eval_defs opts0_def s_started_def)

lemma open_reaches: "write_chunk env0 open_b_chunk s_started = Inr s_paused"
  by (simp add: eval_defs s_started_def s_paused_def open_b_chunk_def open_b_def)

lemma tick_reaches: "run_tick env0 s_paused = Inr s_resumed"
  by (simp add: eval_defs s_started_def s_paused_def s_resumed_def open_b_def hs_a_def)

text \<open>The peer's handshakes: with an empty chain, signed with the feed's key; with a chain
  of two links, signed with the key of the second.\<close>

definition hs_b :: handshake_msg where
  "hs_b = \<lparr> hs_id = replicate 32 5, hs_extensions = [],
            hs_signature = (replicate 24 1 @ replicate 8 2) @ fk0, hs_chain = [] \<rparr>"

definition hs_b2 :: handshake_msg where
  "hs_b2 = \<lparr> hs_id = replicate 32 5, hs_extensions = [],
             hs_signature = (replicate 24 1 @ replicate 8 2) @ replicate 32 4,
             hs_chain = [replicate 32 3, replicate 32 4] \<rparr>"

definition s_secure :: stream where
  "s_secure = s_resumed\<lparr> remote_id := Some (replicate 32 5), remote_chain := Some [],
     secure := True, queue := None,
     events := [EvOpen open_b, EvSecure (replicate 32 5) []] \<rparr>"

lemma hs_b_reaches: "onHandshake env0 hs_b s_resumed = Inr s_secure"
  by (simp add: eval_defs s_started_def s_paused_def s_resumed_def s_secure_def hs_b_def)

definition s_secure2 :: stream where
  "s_secure2 = s_resumed\<lparr> remote_id := Some (replicate 32 5),
     remote_chain := Some [replicate 32 3, replicate 32 4],
     secure := True, queue := None,
     events := [EvOpen open_b, EvSecure (replicate 32 5) [replicate 32 3, replicate 32 4]],
     pushed := [WOpen \<lparr> op_feed = fk0, op_nonce = nonce_a \<rparr>, WFrame HANDSHAKE (Handshake hs_a),
                WFrame LINK (Link \<lparr> lk_link = replicate 32 4 \<rparr>)] \<rparr>"

lemma hs_b2_reaches: "onHandshake env0 hs_b2 s_resumed = Inr s_secure2"
  by (simp add: eval_defs s_started_def s_paused_def s_resumed_def s_secure2_def hs_b2_def)

section \<open>The claims\<close>

subsection \<open>C1: when the Trust Link is issued\<close>

text \<open>The frame a queued send puts on the wire, and the callback it schedules.\<close>

fun frame_of :: "nat \<times> content \<times> nat option \<Rightarrow> wire" where
  "frame_of (i, c, callback) = WFrame i c"

fun callback_of :: "nat \<times> content \<times> nat option \<Rightarrow> tick list" where
  "callback_of (i, c, callback) = (case callback of None \<Rightarrow> [] | Some k \<Rightarrow> [SendCallback k])"

lemma run_queue_secure:
  "secure s \<Longrightarrow> run_queue q s = Inr s' \<Longrightarrow>
     s' = s\<lparr> pushed := pushed s @ map frame_of q, ticks := ticks s @ concat (map callback_of q) \<rparr>"
proof (induction q arbitrary: s)
  case Nil
  then show ?case by simp
next
  case (Cons a q)
  obtain i c cb where a: "a = (i, c, cb)" by (cases a)
  from Cons.prems a obtain t where t: "secureSend i c cb s = Inr t" "run_queue q t = Inr s'"
    by (auto split: sum.splits)
  from t(1) Cons.prems(1) have t_eq:
    "t = s\<lparr> pushed := pushed s @ [WFrame i c], ticks := ticks s @ callback_of a \<rparr>"
    by (auto simp: secureSend_def send_def a split: if_splits option.splits)
  then have "secure t" using Cons.prems(1) by simp
  from Cons.IH [OF this t(2)] show ?case using t_eq a by simp
qed

lemma drainQueue_secure:
  assumes "secure s" "drainQueue s = Inr s'"
  shows "\<exists>q. queue s = Some q \<and>
     s' = s\<lparr> queue := None, pushed := pushed s @ map frame_of q,
             ticks := ticks s @ concat (map callback_of q) \<rparr>"
proof -
  obtain q where q: "queue s = Some q" "run_queue q (s\<lparr>queue := None\<rparr>) = Inr s'"
    using assms(2) by (auto simp: drainQueue_def split: option.splits)
  from run_queue_secure [OF _ q(2)] assms(1) q(1) show ?thesis by simp
qed

lemma issueTrustLink_Inr:
  assumes "issueTrustLink env s = Inr s'" "secure s"
  shows "\<exists>rc c. remote_chain s = Some rc \<and> local_chain s = Some c \<and>
     (if int (length rc) - 1 \<le> int (length c) then s' = s
      else \<exists>e k pk. scan_links env rc \<infinity> None = Some (e, Some k) \<and> privateKey s = Some pk \<and>
        s' = s\<lparr> pushed := pushed s @ [WFrame LINK (Link \<lparr> lk_link = issueLink env e k pk \<rparr>)] \<rparr>)"
  using assms
  by (auto simp: issueTrustLink_def secureSend_def send_def split: option.splits if_splits)

text \<open>C1, as the code has it. \<open>_onHandshake\<close> returns without a Link when
  \<open>remote.chain.length - 1 <= local.chain.length\<close>, and issues one otherwise. So when the
  handler returns, what it has pushed is the queued frames, followed by a Link exactly when
  \<open>remote.chain.length - 1 > local.chain.length\<close>; the Link carries the least expiration
  and the last public key of the remote chain, signed with the local private key.\<close>

theorem trust_link_when_remote_longer:
  assumes "onHandshake env body s = Inr s'" and "local_chain s = Some c" and "queue s = Some q"
  shows "(int (length c) < int (length (hs_chain body)) - 1 \<longrightarrow>
           (\<exists>e k pk. scan_links env (hs_chain body) \<infinity> None = Some (e, Some k) \<and>
              privateKey s = Some pk \<and>
              pushed s' = pushed s @ map frame_of q
                            @ [WFrame LINK (Link \<lparr> lk_link = issueLink env e k pk \<rparr>)])) \<and>
         (int (length (hs_chain body)) - 1 \<le> int (length c) \<longrightarrow>
           pushed s' = pushed s @ map frame_of q)"
proof -
  let ?s1 = "s\<lparr> remote_id := Some (hs_id body), remote_chain := Some (hs_chain body),
                  secure := True,
                  events := events s @ [EvSecure (hs_id body) (hs_chain body)] \<rparr>"
  from assms(1) obtain s2 where s2: "drainQueue ?s1 = Inr s2" "issueTrustLink env s2 = Inr s'"
    by (auto simp: onHandshake_def split: option.splits if_splits sum.splits)
  from drainQueue_secure [OF _ s2(1)] assms(3)
  have s2_eq: "s2 = ?s1\<lparr> queue := None, pushed := pushed s @ map frame_of q,
                          ticks := ticks s @ concat (map callback_of q) \<rparr>"
    by simp
  then have sec: "secure s2" by simp
  from issueTrustLink_Inr [OF s2(2) sec] s2_eq assms(2) show ?thesis
    by (auto split: if_splits)
qed

theorem trust_link_when_remote_longer_witness:
  "onHandshake env0 hs_b2 s_resumed = Inr s_secure2 \<and>
   local_chain s_resumed = Some [] \<and> queue s_resumed = Some [] \<and>
   int (length ([] :: buffer list)) < int (length (hs_chain hs_b2)) - 1 \<and>
   pushed s_secure2 = pushed s_resumed @ [WFrame LINK (Link \<lparr> lk_link = replicate 32 4 \<rparr>)] \<and>
   onHandshake env0 hs_b s_resumed = Inr s_secure \<and>
   int (length (hs_chain hs_b)) - 1 \<le> int (length ([] :: buffer list)) \<and>
   pushed s_secure = pushed s_resumed"
  using trust_link_when_remote_longer [OF hs_b2_reaches, of "[]" "[]"]
    trust_link_when_remote_longer [OF hs_b_reaches, of "[]" "[]"]
    hs_b2_reaches hs_b_reaches
  by (simp add: s_resumed_def s_paused_def s_started_def s_secure_def s_secure2_def
      init_stream_def hs_b_def hs_b2_def)

text \<open>C1 as stated fails in both directions. With both chains empty,
  \<open>remote.chain.length - 1 <= local.chain.length\<close> holds and no Link is pushed; with a
  remote chain of two links against an empty local one it does not hold, and a Link is
  pushed.\<close>

theorem trust_link_counterexample:
  "local_chain s_resumed = Some [] \<and>
   int (length (hs_chain hs_b)) - 1 \<le> int (length ([] :: buffer list)) \<and>
   pushed (outcome (onHandshake env0 hs_b s_resumed)) = pushed s_resumed \<and>
   secure (outcome (onHandshake env0 hs_b s_resumed)) \<and>
   int (length ([] :: buffer list)) < int (length (hs_chain hs_b2)) - 1 \<and>
   pushed (outcome (onHandshake env0 hs_b2 s_resumed))
     = pushed s_resumed @ [WFrame LINK (Link \<lparr> lk_link = replicate 32 4 \<rparr>)]"
  by (simp add: hs_b_reaches hs_b2_reaches)
     (simp add: s_resumed_def s_paused_def s_started_def s_secure_def s_secure2_def
        init_stream_def hs_b_def hs_b2_def)

subsection \<open>C3: the length varint\<close>

lemma nat_or_push_bit:
  fixes a b :: nat
  assumes "a < 2 ^ n"
  shows "a OR push_bit n b = a + 2 ^ n * b"
proof -
  have a: "take_bit n a = a"
    using assms by (simp add: take_bit_nat_eq_self)
  have "take_bit n a AND push_bit n b = 0"
    by (rule bit_eqI) (auto simp: bit_simps)
  then have "a AND push_bit n b = 0"
    by (simp add: a)
  then have "a + push_bit n b = a OR push_bit n b"
    by (rule disjunctive_add_eq_or)
  then show ?thesis
    by (simp add: push_bit_eq_mult mult.commute)
qed

lemma low7_bound: "unat ((b :: byte) AND 0x7f) < 128"
proof -
  have "unat (b AND 0x7f) \<le> unat (0x7f :: byte)"
    by (rule word_and_le1 [THEN word_le_nat_alt [THEN iffD1]])
  then show ?thesis by simp
qed

lemma unat_ucast_low7: "unat (ucast ((b :: byte) AND 0x7f) :: 32 word) = unat (b AND 0x7f)"
  by (simp add: unsigned_ucast_eq take_bit_nat_eq_self unsigned_less [THEN less_trans])

lemma unat_or_push_bit:
  fixes x y :: "32 word"
  assumes "unat x < 2 ^ n" "unat y < 2 ^ m" "n + m \<le> 32"
  shows "unat (x OR push_bit n y) = unat x + 2 ^ n * unat y"
proof -
  have "2 ^ n * unat y < (2 :: nat) ^ n * 2 ^ m"
    using assms(2) by simp
  also have "\<dots> = 2 ^ (n + m)"
    by (simp add: power_add)
  also have "\<dots> \<le> 2 ^ 32"
    using assms(3) by (intro power_increasing) simp_all
  finally have small: "push_bit n (unat y) < 2 ^ 32"
    by (simp only: push_bit_eq_mult mult.commute)
  have "unat (x OR push_bit n y) = unat x OR take_bit 32 (push_bit n (unat y))"
    by (simp add: unsigned_or_eq unsigned_push_bit_eq)
  also have "\<dots> = unat x OR push_bit n (unat y)"
    using small by (simp add: take_bit_nat_eq_self)
  also have "\<dots> = unat x + 2 ^ n * unat y"
    using assms(1) by (rule nat_or_push_bit)
  finally show ?thesis .
qed


text \<open>A varint as bytes: every byte but the last has its top bit set. \<open>leb128\<close> is the
  value the spec gives it (unsigned LEB128): seven bits a byte, the low ones first.\<close>

definition continuation :: "byte \<Rightarrow> bool" where
  "continuation b = (b AND 0x80 \<noteq> 0)"

definition terminated :: "buffer \<Rightarrow> bool" where
  "terminated bs = (bs \<noteq> [] \<and> list_all continuation (butlast bs) \<and> \<not> continuation (last bs))"

fun leb128 :: "buffer \<Rightarrow> nat" where
  "leb128 [] = 0"
| "leb128 (b # bs) = unat (b AND 0x7f) + 128 * leb128 bs"

text \<open>The error an operation threw, if it threw.\<close>

definition thrown :: "'a result \<Rightarrow> error option" where
  "thrown r = (case r of Inl (e, s) \<Rightarrow> Some e | Inr x \<Rightarrow> None)"

lemma parseLength_decodes:
  assumes "terminated bs" "pending s = bs @ rest" "varint_shift s = 7 * k"
    "unat (varint_value s) < 2 ^ (7 * k)" "k + length bs \<le> 3"
  shows "(unat (varint_value s) + 2 ^ (7 * k) * leb128 bs \<le> MAX_PENDING_SIZE \<longrightarrow>
           parseLength s = Inr (True, s\<lparr> pending := rest,
             pstate := (if pstate s = OpenLength then OpenBody else MsgBody),
             waiting := enat (unat (varint_value s) + 2 ^ (7 * k) * leb128 bs),
             varint_value := 0, varint_shift := 0 \<rparr>)) \<and>
         (MAX_PENDING_SIZE < unat (varint_value s) + 2 ^ (7 * k) * leb128 bs \<longrightarrow>
           thrown (parseLength s) = Some LengthTooBig)"
  using assms
proof (induction bs arbitrary: s k)
  case Nil
  then show ?case by (simp add: terminated_def)
next
  case (Cons b bs)
  let ?v = "varint_value s OR push_bit (varint_shift s mod 32) (ucast (b AND 0x7f))"
  let ?s1 = "s\<lparr> pending := bs @ rest, varint_value := ?v, varint_shift := varint_shift s + 7 \<rparr>"
  have k: "k \<le> 2" using Cons.prems(5) by simp
  then have shift: "varint_shift s mod 32 = 7 * k" "\<not> 25 \<le> varint_shift s + 7"
    using Cons.prems(3) by simp_all
  have "unat ?v = unat (varint_value s) + 2 ^ (7 * k) * unat (ucast (b AND 0x7f) :: 32 word)"
    unfolding shift(1)
    by (rule unat_or_push_bit [where m = 7]) (use Cons.prems(4) k low7_bound [of b] in \<open>simp_all add: unat_ucast_low7\<close>)
  then have v: "unat ?v = unat (varint_value s) + 2 ^ (7 * k) * unat (b AND 0x7f)"
    by (simp add: unat_ucast_low7)
  show ?case
  proof (cases "bs = []")
    case True
    then have "\<not> continuation b" using Cons.prems(1) by (simp add: terminated_def)
    then have msb: "b AND 0x80 = 0" by (simp add: continuation_def)
    show ?thesis
      using Cons.prems(2) True msb shift(2) v
      by (simp add: parseLength.simps [of s] Let_def setState_def thrown_def)
  next
    case False
    then have cont: "continuation b" and tbs: "terminated bs"
      using Cons.prems(1) by (simp_all add: terminated_def)
    then have msb: "b AND 0x80 \<noteq> 0" by (simp add: continuation_def)
    have unfold: "parseLength s = parseLength ?s1"
      using Cons.prems(2) msb shift(2) by (simp add: parseLength.simps [of s] Let_def)
    have bound: "unat (varint_value ?s1) < 2 ^ (7 * Suc k)"
    proof -
      have "unat (varint_value s) + 2 ^ (7 * k) * unat (b AND 0x7f)
              < 2 ^ (7 * k) + 2 ^ (7 * k) * 127"
        using Cons.prems(4) low7_bound [of b]
        by (intro add_less_le_mono mult_le_mono2) simp_all
      also have "\<dots> = 2 ^ (7 * Suc k)" by (simp add: power_add)
      finally show ?thesis using v by simp
    qed
    have sum: "unat (varint_value ?s1) + 2 ^ (7 * Suc k) * leb128 bs
        = unat (varint_value s) + 2 ^ (7 * k) * leb128 (b # bs)"
      using v by (simp add: algebra_simps power_add)
    have IH: "(unat (varint_value ?s1) + 2 ^ (7 * Suc k) * leb128 bs \<le> MAX_PENDING_SIZE \<longrightarrow>
           parseLength ?s1 = Inr (True, ?s1\<lparr> pending := rest,
             pstate := (if pstate ?s1 = OpenLength then OpenBody else MsgBody),
             waiting := enat (unat (varint_value ?s1) + 2 ^ (7 * Suc k) * leb128 bs),
             varint_value := 0, varint_shift := 0 \<rparr>)) \<and>
         (MAX_PENDING_SIZE < unat (varint_value ?s1) + 2 ^ (7 * Suc k) * leb128 bs \<longrightarrow>
           thrown (parseLength ?s1) = Some LengthTooBig)"
      by (rule Cons.IH [OF tbs _ _ bound]) (use Cons.prems(3,5) in simp_all)
    show ?thesis
      unfolding unfold using IH unfolding sum by simp
  qed
qed


lemma parseLength_overflow:
  assumes "pending s = bs @ rest" "varint_shift s = 7 * k" "k \<le> 3" "4 \<le> k + length bs"
    "list_all continuation (take (3 - k) bs)"
  shows "thrown (parseLength s) = Some VarintOverflow"
  using assms
proof (induction "3 - k" arbitrary: s k bs)
  case 0
  then have k: "k = 3" by simp
  then obtain b bs' where bs: "bs = b # bs'" using "0.prems"(4) by (cases bs) simp_all
  show ?case
    using "0.prems"(1,2) k bs by (simp add: parseLength.simps [of s] Let_def thrown_def)
next
  case (Suc n)
  then have k: "k \<le> 2" by simp
  obtain b bs' where bs: "bs = b # bs'" using Suc.prems(4) k by (cases bs) simp_all
  have "3 - k = Suc (2 - k)" using k by simp
  then have cont: "continuation b" "list_all continuation (take (3 - Suc k) bs')"
    using Suc.prems(5) bs by simp_all
  let ?s1 = "s\<lparr> pending := bs' @ rest,
     varint_value := varint_value s OR push_bit (varint_shift s mod 32) (ucast (b AND 0x7f)),
     varint_shift := varint_shift s + 7 \<rparr>"
  have unfold: "parseLength s = parseLength ?s1"
    using Suc.prems(1,2) bs k cont(1)
    by (simp add: parseLength.simps [of s] Let_def continuation_def)
  have "thrown (parseLength ?s1) = Some VarintOverflow"
    by (rule Suc.hyps(1) [where k = "Suc k" and bs = bs'])
       (use Suc.hyps(2) Suc.prems(2,4) k bs cont(2) in simp_all)
  then show ?case by (simp add: unfold)
qed

text \<open>What \<open>_parseLength\<close> does on a terminated varint, from a fresh \<open>_varint\<close>. It throws
  'varint doesn't fit into 32-bit value' as soon as \<open>shift\<close> reaches 25, which is at the
  fourth byte, before it looks whether that byte ends the varint. So a varint of 1 to 3
  bytes is decoded to its unsigned value when that value is at most \<open>MAX_PENDING_SIZE\<close>, and
  fails with 'Message length is too big' when it is larger; every encoding longer than 3
  bytes fails with the varint error.\<close>

theorem parseLength_varint:
  assumes "pending s = bs @ rest" and "terminated bs"
    and "varint_value s = 0" and "varint_shift s = 0"
  shows "(length bs \<le> 3 \<and> leb128 bs \<le> MAX_PENDING_SIZE \<longrightarrow>
            parseLength s = Inr (True, s\<lparr> pending := rest,
              pstate := (if pstate s = OpenLength then OpenBody else MsgBody),
              waiting := enat (leb128 bs) \<rparr>)) \<and>
         (length bs \<le> 3 \<and> MAX_PENDING_SIZE < leb128 bs \<longrightarrow>
            thrown (parseLength s) = Some LengthTooBig) \<and>
         (3 < length bs \<longrightarrow> thrown (parseLength s) = Some VarintOverflow)"
proof -
  have short: "length bs \<le> 3 \<Longrightarrow> ?thesis"
    using parseLength_decodes [OF assms(2,1), of 0] assms(3,4)
    by (cases s) simp
  have long: "3 < length bs \<Longrightarrow> thrown (parseLength s) = Some VarintOverflow"
  proof -
    assume l: "3 < length bs"
    have "take 3 bs = take 3 (butlast bs)"
      using l by (simp add: take_butlast)
    then have "list_all continuation (take 3 bs)"
      using assms(2) by (auto simp: terminated_def list_all_iff dest: in_set_takeD)
    then show ?thesis
      using parseLength_overflow [OF assms(1), of 0] assms(4) l by simp
  qed
  show ?thesis using short long by (cases "length bs \<le> 3") simp_all
qed

text \<open>A parser that waits for the length of a message.\<close>

definition s_len :: stream where
  "s_len = (init_stream id0)\<lparr> pstate := MsgLength, waiting := enat 1 \<rparr>"

text \<open>C3. A length varint of four or five bytes is to be accepted and decoded to its value.
  \<open>_parseLength\<close> adds 7 to \<open>shift\<close> and then throws 'varint doesn't fit into 32-bit value'
  when \<open>shift >= 25\<close>, before it looks whether the byte ends the varint: the test is met on
  the fourth byte, where \<open>shift\<close> is 28, whatever the value. The four bytes \<open>81 80 80 00\<close> are
  a terminated varint of value 1; the parser refuses them with that error, and accepts the
  same value as the single byte \<open>01\<close>. It refuses the five bytes \<open>ff ff ff ff 0f\<close>, of value
  \<open>2^32 - 1\<close>, in the same way, so that the \<open>>>> 0\<close> of the source, which reads a value with
  bit 31 set as unsigned, is never of use.\<close>

theorem four_byte_varint_rejected:
  "terminated [0x81, 0x80, 0x80, 0x00] \<and> length [0x81 :: byte, 0x80, 0x80, 0x00] = 4 \<and>
   leb128 [0x81, 0x80, 0x80, 0x00] = 1 \<and>
   thrown (parseLength (s_len\<lparr> pending := [0x81, 0x80, 0x80, 0x00] \<rparr>)) = Some VarintOverflow \<and>
   parseLength (s_len\<lparr> pending := [0x01] \<rparr>)
     = Inr (True, s_len\<lparr> pending := [], pstate := MsgBody, waiting := enat 1 \<rparr>) \<and>
   terminated [0xff, 0xff, 0xff, 0xff, 0x0f] \<and> leb128 [0xff, 0xff, 0xff, 0xff, 0x0f] = 2 ^ 32 - 1 \<and>
   thrown (parseLength (s_len\<lparr> pending := [0xff, 0xff, 0xff, 0xff, 0x0f] \<rparr>)) = Some VarintOverflow"
  by (simp add: terminated_def continuation_def thrown_def s_len_def init_stream_def
      parseLength.simps Let_def setState_def MAX_PENDING_SIZE_def)

theorem parseLength_varint_witness:
  "terminated [0xac, 0x02] \<and> leb128 [0xac, 0x02] = 300 \<and>
   parseLength (s_len\<lparr> pending := [0xac, 0x02] @ [0x09] \<rparr>)
     = Inr (True, s_len\<lparr> pending := [0x09], pstate := MsgBody, waiting := enat 300 \<rparr>) \<and>
   terminated [0xff, 0xff, 0x7f] \<and>
   thrown (parseLength (s_len\<lparr> pending := [0xff, 0xff, 0x7f] @ [] \<rparr>)) = Some LengthTooBig \<and>
   terminated [0xff, 0xff, 0xff, 0xff, 0x0f] \<and>
   thrown (parseLength (s_len\<lparr> pending := [0xff, 0xff, 0xff, 0xff, 0x0f] @ [] \<rparr>))
     = Some VarintOverflow"
  using parseLength_varint [of "s_len\<lparr> pending := [0xac, 0x02] @ [0x09] \<rparr>" "[0xac, 0x02]" "[0x09]"]
    parseLength_varint [of "s_len\<lparr> pending := [0xff, 0xff, 0x7f] @ [] \<rparr>" "[0xff, 0xff, 0x7f]" "[]"]
    parseLength_varint [of "s_len\<lparr> pending := [0xff, 0xff, 0xff, 0xff, 0x0f] @ [] \<rparr>"
      "[0xff, 0xff, 0xff, 0xff, 0x0f]" "[]"]
  by (simp add: terminated_def continuation_def s_len_def init_stream_def MAX_PENDING_SIZE_def)

subsection \<open>Frames through the parser's loop\<close>

text \<open>The parser between two messages.\<close>

definition ready :: "stream \<Rightarrow> bool" where
  "ready s = (pstate s = MsgLength \<and> waiting s = enat 1 \<and> varint_value s = 0 \<and> varint_shift s = 0)"

text \<open>A frame as it arrives, deciphered: the bytes of its length and its body.\<close>

definition framed :: "buffer \<times> buffer \<Rightarrow> bool" where
  "framed f = (case f of (p, b) \<Rightarrow>
     terminated p \<and> length p \<le> 3 \<and> leb128 p = length b \<and> length b \<le> MAX_PENDING_SIZE)"

definition wire_bytes :: "(buffer \<times> buffer) list \<Rightarrow> buffer" where
  "wire_bytes fs = concat (map (\<lambda>(p, b). p @ b) fs)"

lemma ready_update [simp]: "ready s \<Longrightarrow> s\<lparr> pending := x, pstate := MsgLength, waiting := enat 1 \<rparr> = s\<lparr> pending := x \<rparr>"
  by (cases s) (simp add: ready_def)

lemma process_frame:
  assumes "ready s" "framed (p, b)" "pending s = p @ b @ rest"
  shows "process_loop env s =
     (case parseMessage env (s\<lparr> pending := b @ rest, pstate := MsgBody, waiting := enat (length b) \<rparr>) of
        Inl e \<Rightarrow> Inl e
      | Inr (c, s') \<Rightarrow> if c then process_loop env s' else Inr s')"
proof -
  let ?s1 = "s\<lparr> pending := b @ rest, pstate := MsgBody, waiting := enat (length b) \<rparr>"
  have p: "terminated p" "length p \<le> 3" "leb128 p = length b" "length b \<le> MAX_PENDING_SIZE"
    using assms(2) by (simp_all add: framed_def)
  then have "p \<noteq> []" by (auto simp: terminated_def)
  then have enter: "waiting s \<le> enat (length (pending s))"
    using assms(1,3) by (cases p) (simp_all add: ready_def)
  have "parseLength s = Inr (True, s\<lparr> pending := b @ rest,
             pstate := (if pstate s = OpenLength then OpenBody else MsgBody),
             waiting := enat (unat (varint_value s) + 2 ^ (7 * 0) * leb128 p),
             varint_value := 0, varint_shift := 0 \<rparr>)"
    using parseLength_decodes [OF p(1) assms(3), of 0] assms(1) p by (simp add: ready_def)
  then have len: "parse env s = Inr (True, ?s1)"
    using assms(1) p(3) by (cases s) (simp add: parse_def ready_def)
  have body: "parse env ?s1 = parseMessage env ?s1"
    by (simp add: parse_def)
  show ?thesis
    by (subst process_loop.simps, simp add: enter len)
       (subst process_loop.simps, simp add: body)
qed

lemma parseMessage_body:
  assumes "ready s"
  shows "parseMessage env (s\<lparr> pending := b @ rest, pstate := MsgBody, waiting := enat (length b) \<rparr>) =
     (case varint_decode env b of
        None \<Rightarrow> Inl (DecodeFailure, s\<lparr> pending := rest \<rparr>)
      | Some (i, off) \<Rightarrow>
          if \<not> known_id i then Inr (True, s\<lparr> pending := rest \<rparr>)
          else if \<not> gotHandshake s \<and> i \<noteq> HANDSHAKE then Inl (HandshakeFirst, s\<lparr> pending := rest \<rparr>)
          else if gotHandshake s \<and> i = HANDSHAKE then Inl (HandshakeOnce, s\<lparr> pending := rest \<rparr>)
          else (case dispatch env i b off (s\<lparr> pending := rest, gotHandshake := True \<rparr>) of
                  Inl e \<Rightarrow> Inl e
                | Inr s3 \<Rightarrow> Inr (True, s3)))"
  using ready_update [OF assms, of rest]
  by (simp add: parseMessage_def take_pending_def setState_def Let_def split: option.splits)


lemma dispatch_ready:
  assumes "dispatch env i b off (s\<lparr> pending := rest, gotHandshake := True \<rparr>) = Inr s3" "ready s"
  shows "ready s3 \<and> pending s3 = rest \<and> gotHandshake s3"
proof -
  have "handler_frame (s\<lparr> pending := rest, gotHandshake := True \<rparr>) s3"
    using dispatch_frame [of "s\<lparr> pending := rest, gotHandshake := True \<rparr>" env i b off] assms(1)
    by simp
  from handler_frame_fields(1-6) [OF this] assms(2) show ?thesis
    by (simp add: ready_def)
qed

lemma frame_unknown:
  assumes "ready s" "framed (p, b)" "pending s = p @ b @ rest"
    "varint_decode env b = Some (i, off)" "\<not> known_id i"
  shows "process_loop env s = process_loop env (s\<lparr> pending := rest \<rparr>)"
  by (simp add: process_frame [OF assms(1-3)] parseMessage_body [OF assms(1)] assms(4,5))

lemma frame_not_handshake:
  assumes "ready s" "framed (p, b)" "pending s = p @ b @ rest"
    "varint_decode env b = Some (i, off)" "known_id i" "\<not> gotHandshake s" "i \<noteq> HANDSHAKE"
  shows "process_loop env s = Inl (HandshakeFirst, s\<lparr> pending := rest \<rparr>)"
  by (simp add: process_frame [OF assms(1-3)] parseMessage_body [OF assms(1)] assms(4-7))

lemma frame_second_handshake:
  assumes "ready s" "framed (p, b)" "pending s = p @ b @ rest"
    "varint_decode env b = Some (HANDSHAKE, off)" "gotHandshake s"
  shows "process_loop env s = Inl (HandshakeOnce, s\<lparr> pending := rest \<rparr>)"
  by (simp add: process_frame [OF assms(1-3)] parseMessage_body [OF assms(1)] assms(4,5)
      known_id_def)

lemma frame_dispatched:
  assumes "ready s" "framed (p, b)" "pending s = p @ b @ rest"
    "varint_decode env b = Some (i, off)" "known_id i" "gotHandshake s \<longleftrightarrow> i \<noteq> HANDSHAKE"
    "thrown (process_loop env s) = None"
  shows "\<exists>s3. ready s3 \<and> pending s3 = rest \<and> gotHandshake s3 \<and>
           process_loop env s = process_loop env s3"
proof (cases "dispatch env i b off (s\<lparr> pending := rest, gotHandshake := True \<rparr>)")
  case (Inl e)
  then have "process_loop env s = Inl e"
    using assms(4-6)
    by (simp add: process_frame [OF assms(1-3)] parseMessage_body [OF assms(1)])
  then show ?thesis using assms(7) by (cases e) (simp add: thrown_def)
next
  case (Inr s3)
  then have "process_loop env s = process_loop env s3"
    using assms(4-6)
    by (simp add: process_frame [OF assms(1-3)] parseMessage_body [OF assms(1)])
  then show ?thesis using dispatch_ready [OF Inr assms(1)] by blast
qed

text \<open>The ids of the frames of a sequence, and those of them the parser knows: the
  messages it decodes.\<close>

definition frame_ids :: "env \<Rightarrow> (buffer \<times> buffer) list \<Rightarrow> nat list" where
  "frame_ids env fs =
     concat (map (\<lambda>(p, b). case varint_decode env b of None \<Rightarrow> [] | Some (i, off) \<Rightarrow> [i]) fs)"

definition decoded_ids :: "env \<Rightarrow> (buffer \<times> buffer) list \<Rightarrow> nat list" where
  "decoded_ids env fs = filter known_id (frame_ids env fs)"

definition all_ids_decode :: "env \<Rightarrow> (buffer \<times> buffer) list \<Rightarrow> bool" where
  "all_ids_decode env fs = list_all (\<lambda>(p, b). varint_decode env b \<noteq> None) fs"

lemma decoded_ids_Cons:
  "varint_decode env b = Some (i, off) \<Longrightarrow>
     decoded_ids env ((p, b) # fs) = (if known_id i then i # decoded_ids env fs else decoded_ids env fs)"
  by (simp add: decoded_ids_def frame_ids_def)

lemma first_decoded_not_handshake:
  assumes "ready s" "list_all framed fs" "all_ids_decode env fs" "pending s = wire_bytes fs"
    "\<not> gotHandshake s" "decoded_ids env fs \<noteq> []" "hd (decoded_ids env fs) \<noteq> HANDSHAKE"
  shows "thrown (process_loop env s) = Some HandshakeFirst"
  using assms
proof (induction fs arbitrary: s)
  case Nil
  then show ?case by (simp add: decoded_ids_def frame_ids_def)
next
  case (Cons f fs)
  obtain p b where f: "f = (p, b)" by (cases f)
  obtain i off where d: "varint_decode env b = Some (i, off)"
    using Cons.prems(3) f by (auto simp: all_ids_decode_def)
  have fr: "framed (p, b)" and pend: "pending s = p @ b @ wire_bytes fs"
    using Cons.prems(2,4) f by (simp_all add: wire_bytes_def)
  show ?case
  proof (cases "known_id i")
    case True
    then have "i \<noteq> HANDSHAKE" using Cons.prems(7) f d by (simp add: decoded_ids_Cons)
    from frame_not_handshake [OF Cons.prems(1) fr pend d True Cons.prems(5) this]
    show ?thesis by (simp add: thrown_def)
  next
    case False
    let ?s = "s\<lparr> pending := wire_bytes fs \<rparr>"
    have "thrown (process_loop env ?s) = Some HandshakeFirst"
      by (rule Cons.IH)
         (use Cons.prems f d False in \<open>simp_all add: ready_def all_ids_decode_def decoded_ids_Cons\<close>)
    then show ?thesis
      by (simp add: frame_unknown [OF Cons.prems(1) fr pend d False])
  qed
qed

lemma next_decoded_handshake_again:
  assumes "ready s" "list_all framed fs" "all_ids_decode env fs" "pending s = wire_bytes fs"
    "gotHandshake s" "decoded_ids env fs \<noteq> []" "hd (decoded_ids env fs) = HANDSHAKE"
  shows "thrown (process_loop env s) = Some HandshakeOnce"
  using assms
proof (induction fs arbitrary: s)
  case Nil
  then show ?case by (simp add: decoded_ids_def frame_ids_def)
next
  case (Cons f fs)
  obtain p b where f: "f = (p, b)" by (cases f)
  obtain i off where d: "varint_decode env b = Some (i, off)"
    using Cons.prems(3) f by (auto simp: all_ids_decode_def)
  have fr: "framed (p, b)" and pend: "pending s = p @ b @ wire_bytes fs"
    using Cons.prems(2,4) f by (simp_all add: wire_bytes_def)
  show ?case
  proof (cases "known_id i")
    case True
    then have "i = HANDSHAKE" using Cons.prems(7) f d by (simp add: decoded_ids_Cons)
    with frame_second_handshake [OF Cons.prems(1) fr pend _ Cons.prems(5)] d
    show ?thesis by (simp add: thrown_def)
  next
    case False
    let ?s = "s\<lparr> pending := wire_bytes fs \<rparr>"
    have "thrown (process_loop env ?s) = Some HandshakeOnce"
      by (rule Cons.IH)
         (use Cons.prems f d False in \<open>simp_all add: ready_def all_ids_decode_def decoded_ids_Cons\<close>)
    then show ?thesis
      by (simp add: frame_unknown [OF Cons.prems(1) fr pend d False])
  qed
qed

lemma accepted_discipline:
  assumes "ready s" "list_all framed fs" "all_ids_decode env fs" "pending s = wire_bytes fs"
    "thrown (process_loop env s) = None"
  shows "if gotHandshake s then HANDSHAKE \<notin> set (decoded_ids env fs)
         else decoded_ids env fs = [] \<or>
              (hd (decoded_ids env fs) = HANDSHAKE \<and> HANDSHAKE \<notin> set (tl (decoded_ids env fs)))"
  using assms
proof (induction fs arbitrary: s)
  case Nil
  then show ?case by (simp add: decoded_ids_def frame_ids_def)
next
  case (Cons f fs)
  obtain p b where f: "f = (p, b)" by (cases f)
  obtain i off where d: "varint_decode env b = Some (i, off)"
    using Cons.prems(3) f by (auto simp: all_ids_decode_def)
  have fr: "framed (p, b)" and pend: "pending s = p @ b @ wire_bytes fs"
    and rest: "list_all framed fs" "all_ids_decode env fs"
    using Cons.prems(2,3,4) f by (simp_all add: wire_bytes_def all_ids_decode_def)
  show ?case
  proof (cases "known_id i")
    case False
    let ?s = "s\<lparr> pending := wire_bytes fs \<rparr>"
    have "thrown (process_loop env ?s) = None"
      using Cons.prems(5) by (simp add: frame_unknown [OF Cons.prems(1) fr pend d False])
    from Cons.IH [of ?s, OF _ rest _ this] Cons.prems(1) show ?thesis
      using f d False by (simp add: ready_def decoded_ids_Cons)
  next
    case True
    have ok: "gotHandshake s \<longleftrightarrow> i \<noteq> HANDSHAKE"
    proof (rule ccontr)
      assume "\<not> ?thesis"
      then consider "\<not> gotHandshake s" "i \<noteq> HANDSHAKE" | "gotHandshake s" "i = HANDSHAKE"
        by blast
      then show False
      proof cases
        case 1
        from frame_not_handshake [OF Cons.prems(1) fr pend d True 1] Cons.prems(5)
        show False by (simp add: thrown_def)
      next
        case 2
        from frame_second_handshake [OF Cons.prems(1) fr pend _ 2(1)] d 2(2) Cons.prems(5)
        show False by (simp add: thrown_def)
      qed
    qed
    from frame_dispatched [OF Cons.prems(1) fr pend d True ok Cons.prems(5)]
    obtain s3 where s3: "ready s3" "pending s3 = wire_bytes fs" "gotHandshake s3"
      "process_loop env s = process_loop env s3" by blast
    have "thrown (process_loop env s3) = None" using Cons.prems(5) s3(4) by simp
    from Cons.IH [OF s3(1) rest s3(2) this] s3(3)
    have "HANDSHAKE \<notin> set (decoded_ids env fs)" by simp
    then show ?thesis using f d True ok by (auto simp: decoded_ids_Cons)
  qed
qed

text \<open>The peer's handshake on the wire, deciphered: its length, the id 0, the peer's id, the
  signature; and the session after it has parsed it.\<close>

definition hs_b_frame :: "buffer \<times> buffer" where
  "hs_b_frame = ([97], [0] @ replicate 32 5 @ (replicate 24 1 @ replicate 8 2) @ fk0)"

definition s_secure_p :: stream where
  "s_secure_p = s_secure\<lparr> gotHandshake := True, xor_remote := Some (nonce_b, fk0, 98) \<rparr>"

lemma handshake_chunk_reaches:
  "write_chunk env0 (wire_bytes [hs_b_frame]) s_resumed = Inr s_secure_p"
  by (simp add: eval_defs s_started_def s_paused_def s_resumed_def s_secure_def s_secure_p_def
      hs_b_frame_def wire_bytes_def open_b_def hs_a_def)

lemma handshake_frame_accepted:
  "process_loop env0 (s_resumed\<lparr> pending := wire_bytes [hs_b_frame] \<rparr>)
     = Inr (s_secure\<lparr> gotHandshake := True \<rparr>)"
  by (simp add: eval_defs s_started_def s_paused_def s_resumed_def s_secure_def
      hs_b_frame_def wire_bytes_def open_b_def hs_a_def)

subsection \<open>C2: a \<open>Data\<close> message received\<close>

text \<open>C2. \<open>_parse\<close> hands a decoded \<open>Data\<close> message to \<open>this._onData\<close>. \<open>Stream\<close> overrides
  \<open>_onHandshake\<close> and \<open>_onLink\<close> but not \<open>_onData\<close>, so the method of \<open>Parser\<close> runs and
  throws 'Should not be called'. Here a secure session receives the frame of a \<open>Data\<close>
  message whose values are \<open>a\<close> and \<open>b\<close> (not empty, no empty element, no duplicate): the
  write fails, and no \<open>message\<close> event is emitted.\<close>

theorem data_message_not_delivered:
  "decode_data env0 [3, 0x61, 0x62] 1 = Some \<lparr> dt_values = [[0x61], [0x62]] \<rparr> \<and>
   secure s_secure_p \<and>
   thrown (write_chunk env0 [3, 3, 0x61, 0x62] s_secure_p) = Some ShouldNotBeCalled \<and>
   events (outcome (write_chunk env0 [3, 3, 0x61, 0x62] s_secure_p)) = events s_secure_p"
  by (simp add: eval_defs thrown_def s_started_def s_paused_def s_resumed_def s_secure_def
      s_secure_p_def open_b_def hs_a_def)

subsection \<open>C7: the handshake comes first, and once\<close>

lemma once_first: "xs \<noteq> [] \<Longrightarrow> hd xs = a \<Longrightarrow> a \<notin> set (tl xs) \<Longrightarrow> count_list xs a = 1"
  by (cases xs) (simp_all add: count_list_0_iff)

text \<open>The handlers do not read what is pending: with other bytes pending they do the same,
  and leave those bytes.\<close>

definition with_pending :: "buffer \<Rightarrow> stream result \<Rightarrow> stream result" where
  "with_pending x r =
     (case r of Inl (e, t) \<Rightarrow> Inl (e, t\<lparr> pending := x \<rparr>) | Inr t \<Rightarrow> Inr (t\<lparr> pending := x \<rparr>))"

lemma with_pending_simps [simp]:
  "with_pending x (Inl (e, t)) = Inl (e, t\<lparr> pending := x \<rparr>)"
  "with_pending x (Inr t) = Inr (t\<lparr> pending := x \<rparr>)"
  by (simp_all add: with_pending_def)

lemma with_pending_case [simp]:
  "with_pending x (case r of Inl e \<Rightarrow> Inl e | Inr t \<Rightarrow> f t)
     = (case r of Inl e \<Rightarrow> with_pending x (Inl e) | Inr t \<Rightarrow> with_pending x (f t))"
  by (cases r) simp_all

lemma pending_last:
  shows
    "s\<lparr> pending := x, local_id := v0 \<rparr> = s\<lparr> local_id := v0, pending := x \<rparr>"
    "s\<lparr> pending := x, feedKey := v1 \<rparr> = s\<lparr> feedKey := v1, pending := x \<rparr>"
    "s\<lparr> pending := x, feed := v2 \<rparr> = s\<lparr> feed := v2, pending := x \<rparr>"
    "s\<lparr> pending := x, privateKey := v3 \<rparr> = s\<lparr> privateKey := v3, pending := x \<rparr>"
    "s\<lparr> pending := x, local_chain := v4 \<rparr> = s\<lparr> local_chain := v4, pending := x \<rparr>"
    "s\<lparr> pending := x, secure := v5 \<rparr> = s\<lparr> secure := v5, pending := x \<rparr>"
    "s\<lparr> pending := x, hyperchain := v6 \<rparr> = s\<lparr> hyperchain := v6, pending := x \<rparr>"
    "s\<lparr> pending := x, startCallback := v7 \<rparr> = s\<lparr> startCallback := v7, pending := x \<rparr>"
    "s\<lparr> pending := x, destroyed := v8 \<rparr> = s\<lparr> destroyed := v8, pending := x \<rparr>"
    "s\<lparr> pending := x, nonce_local := v9 \<rparr> = s\<lparr> nonce_local := v9, pending := x \<rparr>"
    "s\<lparr> pending := x, nonce_remote := v10 \<rparr> = s\<lparr> nonce_remote := v10, pending := x \<rparr>"
    "s\<lparr> pending := x, nonce_hash := v11 \<rparr> = s\<lparr> nonce_hash := v11, pending := x \<rparr>"
    "s\<lparr> pending := x, nonce_reverseHash := v12 \<rparr> = s\<lparr> nonce_reverseHash := v12, pending := x \<rparr>"
    "s\<lparr> pending := x, remote_id := v13 \<rparr> = s\<lparr> remote_id := v13, pending := x \<rparr>"
    "s\<lparr> pending := x, remote_chain := v14 \<rparr> = s\<lparr> remote_chain := v14, pending := x \<rparr>"
    "s\<lparr> pending := x, queue := v15 \<rparr> = s\<lparr> queue := v15, pending := x \<rparr>"
    "s\<lparr> pending := x, openListener := v16 \<rparr> = s\<lparr> openListener := v16, pending := x \<rparr>"
    "s\<lparr> pending := x, xor_self := v17 \<rparr> = s\<lparr> xor_self := v17, pending := x \<rparr>"
    "s\<lparr> pending := x, xor_remote := v18 \<rparr> = s\<lparr> xor_remote := v18, pending := x \<rparr>"
    "s\<lparr> pending := x, pstate := v20 \<rparr> = s\<lparr> pstate := v20, pending := x \<rparr>"
    "s\<lparr> pending := x, waiting := v21 \<rparr> = s\<lparr> waiting := v21, pending := x \<rparr>"
    "s\<lparr> pending := x, varint_value := v22 \<rparr> = s\<lparr> varint_value := v22, pending := x \<rparr>"
    "s\<lparr> pending := x, varint_shift := v23 \<rparr> = s\<lparr> varint_shift := v23, pending := x \<rparr>"
    "s\<lparr> pending := x, gotHandshake := v24 \<rparr> = s\<lparr> gotHandshake := v24, pending := x \<rparr>"
    "s\<lparr> pending := x, paused_enabled := v25 \<rparr> = s\<lparr> paused_enabled := v25, pending := x \<rparr>"
    "s\<lparr> pending := x, paused_pending := v26 \<rparr> = s\<lparr> paused_pending := v26, pending := x \<rparr>"
    "s\<lparr> pending := x, paused_callback := v27 \<rparr> = s\<lparr> paused_callback := v27, pending := x \<rparr>"
    "s\<lparr> pending := x, pushed := v28 \<rparr> = s\<lparr> pushed := v28, pending := x \<rparr>"
    "s\<lparr> pending := x, events := v29 \<rparr> = s\<lparr> events := v29, pending := x \<rparr>"
    "s\<lparr> pending := x, ticks := v30 \<rparr> = s\<lparr> ticks := v30, pending := x \<rparr>"
  by (cases s, simp)+

lemma send_pending: "send i c cb (s\<lparr> pending := x \<rparr>) = with_pending x (send i c cb s)"
  by (simp add: send_def pending_last split: option.splits)

lemma secureSend_pending:
  "secureSend i c cb (s\<lparr> pending := x \<rparr>) = with_pending x (secureSend i c cb s)"
  by (simp add: secureSend_def send_pending pending_last split: option.splits)

lemma run_queue_pending: "run_queue q (s\<lparr> pending := x \<rparr>) = with_pending x (run_queue q s)"
proof (induction q arbitrary: s)
  case Nil
  show ?case by simp
next
  case (Cons a q)
  obtain i c cb where a: "a = (i, c, cb)" by (cases a)
  show ?case
  proof (cases "secureSend i c cb s")
    case (Inl e)
    then show ?thesis using a by (cases e) (simp add: secureSend_pending)
  next
    case (Inr t)
    then show ?thesis using a Cons.IH [of t] by (simp add: secureSend_pending)
  qed
qed

lemma drainQueue_pending: "drainQueue (s\<lparr> pending := x \<rparr>) = with_pending x (drainQueue s)"
  using run_queue_pending [where s = "s\<lparr> queue := None \<rparr>" and x = x]
  by (simp add: drainQueue_def pending_last split: option.splits)

lemma issueTrustLink_pending:
  "issueTrustLink env (s\<lparr> pending := x \<rparr>) = with_pending x (issueTrustLink env s)"
  by (simp add: issueTrustLink_def secureSend_pending pending_last split: option.splits)

lemma onHandshake_pending:
  "onHandshake env body (s\<lparr> pending := x \<rparr>) = with_pending x (onHandshake env body s)"
proof -
  let ?s1 = "s\<lparr> remote_id := Some (hs_id body), remote_chain := Some (hs_chain body),
                  secure := True,
                  events := events s @ [EvSecure (hs_id body) (hs_chain body)] \<rparr>"
  have "(case drainQueue (?s1\<lparr> pending := x \<rparr>) of Inl e \<Rightarrow> Inl e | Inr s2 \<Rightarrow> issueTrustLink env s2)
      = with_pending x (case drainQueue ?s1 of Inl e \<Rightarrow> Inl e | Inr s2 \<Rightarrow> issueTrustLink env s2)"
  proof (cases "drainQueue ?s1")
    case (Inl e)
    then show ?thesis by (cases e) (simp add: drainQueue_pending)
  next
    case (Inr s2)
    then show ?thesis by (simp add: drainQueue_pending issueTrustLink_pending)
  qed
  then show ?thesis
    by (simp add: onHandshake_def pending_last split: option.splits)
qed

lemma onLink_pending:
  "onLink env body (s\<lparr> pending := x \<rparr>) = with_pending x (onLink env body s)"
  by (simp add: onLink_def Let_def pending_last split: option.splits)

lemma dispatch_pending:
  "dispatch env i msg off (s\<lparr> pending := x \<rparr>) = with_pending x (dispatch env i msg off s)"
  by (simp add: dispatch_def onHandshake_pending onLink_pending onData_def emit_message_def
      pending_last split: option.splits)


text \<open>So a sequence of frames the loop accepts can be followed by more bytes: the loop gets
  through the sequence in the same way and goes on with those bytes. Once it has accepted a
  message, it has set \<open>_gotHandshake\<close>.\<close>

lemma loop_done: "ready s \<Longrightarrow> process_loop env (s\<lparr> pending := [] \<rparr>) = Inr (s\<lparr> pending := [] \<rparr>)"
  by (subst process_loop.simps) (simp add: ready_def)

lemma frame_known:
  assumes "ready s" "framed (p, b)" "pending s = p @ b @ rest"
    "varint_decode env b = Some (i, off)" "known_id i"
  shows "process_loop env s =
     (if \<not> gotHandshake s \<and> i \<noteq> HANDSHAKE then Inl (HandshakeFirst, s\<lparr> pending := rest \<rparr>)
      else if gotHandshake s \<and> i = HANDSHAKE then Inl (HandshakeOnce, s\<lparr> pending := rest \<rparr>)
      else (case dispatch env i b off (s\<lparr> pending := rest, gotHandshake := True \<rparr>) of
              Inl e \<Rightarrow> Inl e
            | Inr s3 \<Rightarrow> process_loop env s3))"
  by (simp add: process_frame [OF assms(1-3)] parseMessage_body [OF assms(1)] assms(4,5)
      split: sum.splits)

lemma accepted_prefix:
  assumes "ready s" "list_all framed fs" "all_ids_decode env fs"
    "process_loop env (s\<lparr> pending := wire_bytes fs \<rparr>) = Inr s'"
  shows "process_loop env (s\<lparr> pending := wire_bytes fs @ r \<rparr>) = process_loop env (s'\<lparr> pending := r \<rparr>) \<and>
         ready s' \<and> (gotHandshake s' \<longleftrightarrow> gotHandshake s \<or> decoded_ids env fs \<noteq> [])"
  using assms
proof (induction fs arbitrary: s)
  case Nil
  then have "s' = s\<lparr> pending := [] \<rparr>"
    by (simp add: wire_bytes_def loop_done)
  then show ?case using Nil.prems(1)
    by (simp add: wire_bytes_def ready_def decoded_ids_def frame_ids_def)
next
  case (Cons f fs)
  obtain p b where f: "f = (p, b)" by (cases f)
  obtain i off where d: "varint_decode env b = Some (i, off)"
    using Cons.prems(3) f by (auto simp: all_ids_decode_def)
  have fr: "framed (p, b)" and rest: "list_all framed fs" "all_ids_decode env fs"
    using Cons.prems(2,3) f by (simp_all add: all_ids_decode_def)
  let ?a = "s\<lparr> pending := wire_bytes (f # fs) \<rparr>"
  let ?l = "s\<lparr> pending := wire_bytes (f # fs) @ r \<rparr>"
  have ra: "ready ?a" "ready ?l" using Cons.prems(1) by (simp_all add: ready_def)
  have pa: "pending ?a = p @ b @ wire_bytes fs" "pending ?l = p @ b @ (wire_bytes fs @ r)"
    using f by (simp_all add: wire_bytes_def)
  show ?case
  proof (cases "known_id i")
    case False
    have "process_loop env (s\<lparr> pending := wire_bytes fs \<rparr>) = Inr s'"
      using Cons.prems(4) frame_unknown [OF ra(1) fr pa(1) d False] by simp
    from Cons.IH [OF Cons.prems(1) rest this]
    show ?thesis
      using frame_unknown [OF ra(2) fr pa(2) d False] f d False
      by (simp add: decoded_ids_Cons)
  next
    case True
    let ?D = "dispatch env i b off (s\<lparr> gotHandshake := True \<rparr>)"
    have da: "dispatch env i b off (?a\<lparr> pending := wire_bytes fs, gotHandshake := True \<rparr>)
                = with_pending (wire_bytes fs) ?D"
      using dispatch_pending [where s = "s\<lparr> gotHandshake := True \<rparr>" and x = "wire_bytes fs"]
      by (simp add: pending_last)
    have dl: "dispatch env i b off (?l\<lparr> pending := wire_bytes fs @ r, gotHandshake := True \<rparr>)
                = with_pending (wire_bytes fs @ r) ?D"
      using dispatch_pending [where s = "s\<lparr> gotHandshake := True \<rparr>" and x = "wire_bytes fs @ r"]
      by (simp add: pending_last)
    have la: "process_loop env ?a = Inr s'" using Cons.prems(4) by simp
    have ok: "\<not> (\<not> gotHandshake s \<and> i \<noteq> HANDSHAKE)" "\<not> (gotHandshake s \<and> i = HANDSHAKE)"
      using la frame_known [OF ra(1) fr pa(1) d True] by (auto split: if_splits)
    obtain t0 where t0: "?D = Inr t0"
      using la frame_known [OF ra(1) fr pa(1) d True] ok da
      by (cases ?D) (auto split: if_splits)
    let ?s3 = "t0\<lparr> pending := wire_bytes fs \<rparr>"
    have s3: "process_loop env ?s3 = Inr s'"
      using la frame_known [OF ra(1) fr pa(1) d True] ok da t0 by (auto split: if_splits)
    have "dispatch env i b off (?a\<lparr> pending := wire_bytes fs, gotHandshake := True \<rparr>) = Inr ?s3"
      using da t0 by simp
    from dispatch_ready [OF this ra(1)] have r3: "ready ?s3" "gotHandshake ?s3" by simp_all
    then have r0: "ready t0" "gotHandshake t0" by (simp_all add: ready_def)
    from Cons.IH [OF r0(1) rest s3]
    have IH: "process_loop env (t0\<lparr> pending := wire_bytes fs @ r \<rparr>) = process_loop env (s'\<lparr> pending := r \<rparr>)"
      "ready s'" "gotHandshake s'"
      using r0(2) by simp_all
    have "process_loop env ?l = process_loop env (t0\<lparr> pending := wire_bytes fs @ r \<rparr>)"
      using frame_known [OF ra(2) fr pa(2) d True] ok dl t0 by simp
    then show ?thesis using IH f d True by (simp add: decoded_ids_Cons)
  qed
qed

text \<open>The two errors of the handshake's order come from \<open>_parse\<close> alone: no handler throws
  them.\<close>

lemma secureSend_not_first: "thrown (secureSend i c cb s) \<noteq> Some HandshakeFirst"
  by (simp add: secureSend_def send_def thrown_def split: option.splits)

lemma run_queue_not_first: "thrown (run_queue q s) \<noteq> Some HandshakeFirst"
proof (induction q arbitrary: s)
  case Nil
  show ?case by (simp add: thrown_def)
next
  case (Cons a q)
  obtain i c cb where a: "a = (i, c, cb)" by (cases a)
  show ?case
  proof (cases "secureSend i c cb s")
    case (Inl e)
    then show ?thesis using a secureSend_not_first [of i c cb s] by (cases e) (simp add: thrown_def)
  next
    case (Inr t)
    then show ?thesis using a Cons.IH [of t] by simp
  qed
qed

lemma onHandshake_not_first: "thrown (onHandshake env body s) \<noteq> Some HandshakeFirst"
proof -
  let ?s1 = "s\<lparr> remote_id := Some (hs_id body), remote_chain := Some (hs_chain body),
                  secure := True,
                  events := events s @ [EvSecure (hs_id body) (hs_chain body)] \<rparr>"
  have i: "thrown (issueTrustLink env t) \<noteq> Some HandshakeFirst" for t
    using secureSend_not_first [of LINK _ None t]
    by (simp add: issueTrustLink_def thrown_def split: option.splits)
  have d: "thrown (drainQueue t) \<noteq> Some HandshakeFirst" for t
    using run_queue_not_first [where s = "t\<lparr> queue := None \<rparr>"]
    by (simp add: drainQueue_def thrown_def split: option.splits)
  have "thrown (case drainQueue ?s1 of Inl e \<Rightarrow> Inl e | Inr s2 \<Rightarrow> issueTrustLink env s2)
          \<noteq> Some HandshakeFirst"
  proof (cases "drainQueue ?s1")
    case (Inl e)
    then show ?thesis using d [of ?s1] by (cases e) (simp add: thrown_def)
  next
    case (Inr s2)
    then show ?thesis using i [of s2] by simp
  qed
  then show ?thesis
    by (simp add: onHandshake_def thrown_def split: option.splits)
qed

lemma dispatch_not_first: "thrown (dispatch env i msg off s) \<noteq> Some HandshakeFirst"
  using onHandshake_not_first [of env _ s]
  by (simp add: dispatch_def onLink_def onData_def thrown_def Let_def split: option.splits)

lemma no_first_after:
  assumes "ready s" "list_all framed fs" "all_ids_decode env fs" "pending s = wire_bytes fs"
    "gotHandshake s"
  shows "thrown (process_loop env s) \<noteq> Some HandshakeFirst"
  using assms
proof (induction fs arbitrary: s)
  case Nil
  then have "s = s\<lparr> pending := [] \<rparr>" by (simp add: wire_bytes_def)
  then have "process_loop env s = Inr s" using loop_done [OF Nil.prems(1), of env] by simp
  then show ?case by (simp add: thrown_def)
next
  case (Cons f fs)
  obtain p b where f: "f = (p, b)" by (cases f)
  obtain i off where d: "varint_decode env b = Some (i, off)"
    using Cons.prems(3) f by (auto simp: all_ids_decode_def)
  have fr: "framed (p, b)" and pend: "pending s = p @ b @ wire_bytes fs"
    and rest: "list_all framed fs" "all_ids_decode env fs"
    using Cons.prems(2,3,4) f by (simp_all add: wire_bytes_def all_ids_decode_def)
  show ?case
  proof (cases "known_id i")
    case False
    have "thrown (process_loop env (s\<lparr> pending := wire_bytes fs \<rparr>)) \<noteq> Some HandshakeFirst"
      by (rule Cons.IH) (use Cons.prems rest in \<open>simp_all add: ready_def\<close>)
    then show ?thesis by (simp add: frame_unknown [OF Cons.prems(1) fr pend d False])
  next
    case True
    let ?d = "dispatch env i b off (s\<lparr> pending := wire_bytes fs, gotHandshake := True \<rparr>)"
    show ?thesis
    proof (cases "i = HANDSHAKE")
      case True
      then show ?thesis
        using frame_known [OF Cons.prems(1) fr pend d \<open>known_id i\<close>] Cons.prems(5)
        by (simp add: thrown_def)
    next
      case False
      show ?thesis
      proof (cases ?d)
        case (Inl e)
        then have "process_loop env s = Inl e"
          using frame_known [OF Cons.prems(1) fr pend d True] Cons.prems(5) False by simp
        then show ?thesis
          using dispatch_not_first [of env i b off "s\<lparr> pending := wire_bytes fs, gotHandshake := True \<rparr>"] Inl
          by simp
      next
        case (Inr s3)
        then have "process_loop env s = process_loop env s3"
          using frame_known [OF Cons.prems(1) fr pend d True] Cons.prems(5) False by simp
        moreover have "thrown (process_loop env s3) \<noteq> Some HandshakeFirst"
          using dispatch_ready [OF Inr Cons.prems(1)] rest by (intro Cons.IH) simp_all
        ultimately show ?thesis by simp
      qed
    qed
  qed
qed

lemma first_only_at_start:
  assumes "ready s" "list_all framed fs" "all_ids_decode env fs" "pending s = wire_bytes fs"
    "thrown (process_loop env s) = Some HandshakeFirst"
  shows "\<not> gotHandshake s \<and> decoded_ids env fs \<noteq> [] \<and> hd (decoded_ids env fs) \<noteq> HANDSHAKE"
  using assms
proof (induction fs arbitrary: s)
  case Nil
  then show ?case using no_first_after [OF Nil.prems(1-4)]
    by (cases "gotHandshake s") (simp_all add: wire_bytes_def loop_done thrown_def ready_def
        process_loop.simps [of env s])
next
  case (Cons f fs)
  have g: "\<not> gotHandshake s"
    using no_first_after [OF Cons.prems(1-4)] Cons.prems(5) by blast
  obtain p b where f: "f = (p, b)" by (cases f)
  obtain i off where d: "varint_decode env b = Some (i, off)"
    using Cons.prems(3) f by (auto simp: all_ids_decode_def)
  have fr: "framed (p, b)" and pend: "pending s = p @ b @ wire_bytes fs"
    and rest: "list_all framed fs" "all_ids_decode env fs"
    using Cons.prems(2,3,4) f by (simp_all add: wire_bytes_def all_ids_decode_def)
  show ?case
  proof (cases "known_id i")
    case False
    have "thrown (process_loop env (s\<lparr> pending := wire_bytes fs \<rparr>)) = Some HandshakeFirst"
      using Cons.prems(5) by (simp add: frame_unknown [OF Cons.prems(1) fr pend d False])
    from Cons.IH [OF _ rest _ this] Cons.prems(1) show ?thesis
      using f d False by (simp add: ready_def decoded_ids_Cons)
  next
    case True
    let ?d = "dispatch env i b off (s\<lparr> pending := wire_bytes fs, gotHandshake := True \<rparr>)"
    have "i \<noteq> HANDSHAKE"
    proof
      assume h: "i = HANDSHAKE"
      show False
      proof (cases ?d)
        case (Inl e)
        then have "process_loop env s = Inl e"
          using frame_known [OF Cons.prems(1) fr pend d True] g h by simp
        then show False
          using dispatch_not_first [of env i b off "s\<lparr> pending := wire_bytes fs, gotHandshake := True \<rparr>"]
            Inl Cons.prems(5)
          by simp
      next
        case (Inr s3)
        then have "process_loop env s = process_loop env s3"
          using frame_known [OF Cons.prems(1) fr pend d True] g h by simp
        moreover have "thrown (process_loop env s3) \<noteq> Some HandshakeFirst"
          using dispatch_ready [OF Inr Cons.prems(1)] rest by (intro no_first_after) simp_all
        ultimately show False using Cons.prems(5) by simp
      qed
    qed
    then show ?thesis using g f d True by (simp add: decoded_ids_Cons)
  qed
qed

lemma second_handshake_refused:
  assumes "ready s" "list_all framed (fs1 @ fs2)" "all_ids_decode env (fs1 @ fs2)"
    "pending s = wire_bytes (fs1 @ fs2)"
    "thrown (process_loop env (s\<lparr> pending := wire_bytes fs1 \<rparr>)) = None"
    "decoded_ids env fs1 \<noteq> []" "decoded_ids env fs2 \<noteq> []" "hd (decoded_ids env fs2) = HANDSHAKE"
  shows "thrown (process_loop env s) = Some HandshakeOnce"
proof -
  obtain s' where s': "process_loop env (s\<lparr> pending := wire_bytes fs1 \<rparr>) = Inr s'"
    using assms(5) by (cases "process_loop env (s\<lparr> pending := wire_bytes fs1 \<rparr>)")
      (auto simp: thrown_def)
  have fr: "list_all framed fs1" "list_all framed fs2" "all_ids_decode env fs1" "all_ids_decode env fs2"
    using assms(2,3) by (simp_all add: all_ids_decode_def)
  have "s = s\<lparr> pending := wire_bytes fs1 @ wire_bytes fs2 \<rparr>"
    using assms(4) by (simp add: wire_bytes_def)
  then have "process_loop env s = process_loop env (s\<lparr> pending := wire_bytes fs1 @ wire_bytes fs2 \<rparr>)"
    by simp
  with accepted_prefix [OF assms(1) fr(1,3) s', of "wire_bytes fs2"] assms(6)
  have a: "process_loop env s = process_loop env (s'\<lparr> pending := wire_bytes fs2 \<rparr>)"
    "ready s'" "gotHandshake s'"
    by simp_all
  have "thrown (process_loop env (s'\<lparr> pending := wire_bytes fs2 \<rparr>)) = Some HandshakeOnce"
    by (rule next_decoded_handshake_again)
       (use a(2,3) fr assms(7,8) in \<open>simp_all add: ready_def\<close>)
  then show ?thesis using a(1) by simp
qed

text \<open>C7. The parser, between two messages, is given a sequence of frames whose ids decode.
  If the first message it decodes (the first frame with a known id, whatever frames with
  unknown ids come before) is not a \<open>Handshake\<close> while none was decoded yet, it fails with
  'Handshake must be the first message after Open'. If a \<open>Handshake\<close> was decoded already
  and the next message it decodes is a \<open>Handshake\<close> again, it fails with 'Handshake must be
  sent only once'. And when the parser accepts the whole sequence, starting with no
  \<open>Handshake\<close> decoded, then either it decoded no message at all, or the first message it
  decoded is a \<open>Handshake\<close> and it is the only one.

  The parser remembers by itself that it has decoded a message. When the sequence is
  \<open>fs1\<close> followed by \<open>fs2\<close>, the parser accepts \<open>fs1\<close> and decodes a message in it, and the
  first message it decodes in \<open>fs2\<close> is a \<open>Handshake\<close>, it fails with 'Handshake must be sent
  only once'. And it fails with 'Handshake must be the first message after Open' in no
  other case than the first above: never once a \<open>Handshake\<close> was accepted.\<close>

theorem handshake_first_and_once:
  assumes "ready s" and "list_all framed fs" and "all_ids_decode env fs"
    and "pending s = wire_bytes fs"
  shows "(\<not> gotHandshake s \<and> decoded_ids env fs \<noteq> [] \<and> hd (decoded_ids env fs) \<noteq> HANDSHAKE \<longrightarrow>
            thrown (process_loop env s) = Some HandshakeFirst) \<and>
         (gotHandshake s \<and> decoded_ids env fs \<noteq> [] \<and> hd (decoded_ids env fs) = HANDSHAKE \<longrightarrow>
            thrown (process_loop env s) = Some HandshakeOnce) \<and>
         (\<not> gotHandshake s \<and> thrown (process_loop env s) = None \<longrightarrow>
            decoded_ids env fs = [] \<or>
            (hd (decoded_ids env fs) = HANDSHAKE \<and> count_list (decoded_ids env fs) HANDSHAKE = 1)) \<and>
         (fs = fs1 @ fs2 \<and> thrown (process_loop env (s\<lparr> pending := wire_bytes fs1 \<rparr>)) = None \<and>
          decoded_ids env fs1 \<noteq> [] \<and> decoded_ids env fs2 \<noteq> [] \<and>
          hd (decoded_ids env fs2) = HANDSHAKE \<longrightarrow>
            thrown (process_loop env s) = Some HandshakeOnce) \<and>
         (thrown (process_loop env s) = Some HandshakeFirst \<longrightarrow>
            \<not> gotHandshake s \<and> decoded_ids env fs \<noteq> [] \<and> hd (decoded_ids env fs) \<noteq> HANDSHAKE)"
proof (intro conjI impI)
  assume "\<not> gotHandshake s \<and> decoded_ids env fs \<noteq> [] \<and> hd (decoded_ids env fs) \<noteq> HANDSHAKE"
  then show "thrown (process_loop env s) = Some HandshakeFirst"
    using first_decoded_not_handshake [OF assms] by simp
next
  assume "gotHandshake s \<and> decoded_ids env fs \<noteq> [] \<and> hd (decoded_ids env fs) = HANDSHAKE"
  then show "thrown (process_loop env s) = Some HandshakeOnce"
    using next_decoded_handshake_again [OF assms] by simp
next
  assume a: "\<not> gotHandshake s \<and> thrown (process_loop env s) = None"
  then have d: "decoded_ids env fs = [] \<or>
      (hd (decoded_ids env fs) = HANDSHAKE \<and> HANDSHAKE \<notin> set (tl (decoded_ids env fs)))"
    using accepted_discipline [OF assms] by simp
  show "decoded_ids env fs = [] \<or>
      (hd (decoded_ids env fs) = HANDSHAKE \<and> count_list (decoded_ids env fs) HANDSHAKE = 1)"
  proof (cases "decoded_ids env fs = []")
    case True
    then show ?thesis by simp
  next
    case False
    with d have "hd (decoded_ids env fs) = HANDSHAKE" "HANDSHAKE \<notin> set (tl (decoded_ids env fs))"
      by simp_all
    with False show ?thesis by (simp add: once_first)
  qed
next
  assume a: "fs = fs1 @ fs2 \<and> thrown (process_loop env (s\<lparr> pending := wire_bytes fs1 \<rparr>)) = None \<and>
          decoded_ids env fs1 \<noteq> [] \<and> decoded_ids env fs2 \<noteq> [] \<and>
          hd (decoded_ids env fs2) = HANDSHAKE"
  show "thrown (process_loop env s) = Some HandshakeOnce"
    by (rule second_handshake_refused [of s fs1 fs2]) (use a assms in simp_all)
next
  assume a: "thrown (process_loop env s) = Some HandshakeFirst"
  from first_only_at_start [OF assms a]
  show "\<not> gotHandshake s" "decoded_ids env fs \<noteq> []" "hd (decoded_ids env fs) \<noteq> HANDSHAKE"
    by simp_all
qed

text \<open>The session \<open>A\<close>, having sent its handshake, is given: a frame with the unknown id 9
  and a \<open>Request\<close>; the peer's \<open>Handshake\<close>; the peer's \<open>Handshake\<close> twice; the peer's
  \<open>Handshake\<close> and a \<open>Request\<close>. And, once it has accepted the peer's \<open>Handshake\<close>, a frame
  with the id 0.\<close>

lemma session_a_reaches:
  "exec env0 [Start opts0 nonce_a, WriteChunk open_b_chunk, Tick] (init_stream id0) = s_resumed"
  by (simp add: start_reaches open_reaches tick_reaches)

lemma handshake_twice_refused:
  "thrown (write_chunk env0 (wire_bytes [hs_b_frame, hs_b_frame]) s_resumed) = Some HandshakeOnce"
  by (simp add: eval_defs thrown_def s_started_def s_paused_def s_resumed_def
      hs_b_frame_def wire_bytes_def open_b_def hs_a_def)

lemma request_after_handshake_accepted:
  "thrown (write_chunk env0 (wire_bytes [hs_b_frame, ([2], [4, 0x61])]) s_resumed) = None \<and>
   events (outcome (write_chunk env0 (wire_bytes [hs_b_frame, ([2], [4, 0x61])]) s_resumed))
     = [EvOpen open_b, EvSecure (replicate 32 5) [],
        EvMessage ''request'' (Request \<lparr> rq_start = Some [0x61], rq_end = None, rq_limit = Some 0 \<rparr>)]"
  by (simp add: eval_defs thrown_def s_started_def s_paused_def s_resumed_def
      hs_b_frame_def wire_bytes_def open_b_def hs_a_def)

theorem handshake_first_and_once_witness:
  "exec env0 [Start opts0 nonce_a, WriteChunk open_b_chunk, Tick] (init_stream id0) = s_resumed \<and>
   ready s_resumed \<and> \<not> gotHandshake s_resumed \<and>
   list_all framed [([2], [9, 0xff]), ([1], [4])] \<and>
   all_ids_decode env0 [([2], [9, 0xff]), ([1], [4])] \<and>
   decoded_ids env0 [([2], [9, 0xff]), ([1], [4])] = [REQUEST] \<and>
   thrown (process_loop env0 (s_resumed\<lparr> pending := wire_bytes [([2], [9, 0xff]), ([1], [4])] \<rparr>))
     = Some HandshakeFirst \<and>
   write_chunk env0 (wire_bytes [hs_b_frame]) s_resumed = Inr s_secure_p \<and>
   ready s_secure_p \<and> gotHandshake s_secure_p \<and>
   list_all framed [([1], [0])] \<and> all_ids_decode env0 [([1], [0])] \<and>
   decoded_ids env0 [([1], [0])] = [HANDSHAKE] \<and>
   thrown (process_loop env0 (s_secure_p\<lparr> pending := wire_bytes [([1], [0])] \<rparr>))
     = Some HandshakeOnce \<and>
   list_all framed [hs_b_frame] \<and> all_ids_decode env0 [hs_b_frame] \<and>
   thrown (process_loop env0 (s_resumed\<lparr> pending := wire_bytes [hs_b_frame] \<rparr>)) = None \<and>
   decoded_ids env0 [hs_b_frame] = [HANDSHAKE] \<and>
   count_list (decoded_ids env0 [hs_b_frame]) HANDSHAKE = 1 \<and>
   list_all framed [hs_b_frame, hs_b_frame] \<and> all_ids_decode env0 [hs_b_frame, hs_b_frame] \<and>
   thrown (process_loop env0 (s_resumed\<lparr> pending := wire_bytes [hs_b_frame, hs_b_frame] \<rparr>))
     = Some HandshakeOnce \<and>
   thrown (write_chunk env0 (wire_bytes [hs_b_frame, hs_b_frame]) s_resumed) = Some HandshakeOnce \<and>
   thrown (write_chunk env0 (wire_bytes [hs_b_frame, ([2], [4, 0x61])]) s_resumed) = None"
proof -
  have r: "ready s_resumed" "\<not> gotHandshake s_resumed" "ready s_secure_p" "gotHandshake s_secure_p"
    by (simp_all add: ready_def s_resumed_def s_paused_def s_started_def s_secure_def
        s_secure_p_def init_stream_def)
  have f: "list_all framed [([2], [9, 0xff]), ([1], [4])]" "list_all framed [([1], [0])]"
    "list_all framed [hs_b_frame]" "list_all framed [hs_b_frame, hs_b_frame]"
    by (simp_all add: framed_def terminated_def continuation_def MAX_PENDING_SIZE_def
        hs_b_frame_def fk0_def)
  have d: "all_ids_decode env0 [([2], [9, 0xff]), ([1], [4])]" "all_ids_decode env0 [([1], [0])]"
    "all_ids_decode env0 [hs_b_frame]"
    "decoded_ids env0 [([2], [9, 0xff]), ([1], [4])] = [REQUEST]"
    "decoded_ids env0 [([1], [0])] = [HANDSHAKE]"
    "decoded_ids env0 [hs_b_frame] = [HANDSHAKE]"
    "all_ids_decode env0 [hs_b_frame, hs_b_frame]"
    by (simp_all add: all_ids_decode_def decoded_ids_def frame_ids_def env0_def known_id_def
        hs_b_frame_def HANDSHAKE_def SYNC_def FILTER_OPTIONS_def DATA_def REQUEST_def LINK_def)
  have ok: "thrown (process_loop env0 (s_resumed\<lparr> pending := wire_bytes [hs_b_frame] \<rparr>)) = None"
    by (simp add: handshake_frame_accepted thrown_def)
  have twice: "thrown (process_loop env0 (s_resumed\<lparr> pending := wire_bytes [hs_b_frame, hs_b_frame] \<rparr>))
     = Some HandshakeOnce"
    using handshake_first_and_once [where s = "s_resumed\<lparr> pending := wire_bytes [hs_b_frame, hs_b_frame] \<rparr>"
        and fs = "[hs_b_frame, hs_b_frame]" and env = env0 and ?fs1.0 = "[hs_b_frame]"
        and ?fs2.0 = "[hs_b_frame]"]
      r f d ok
    by (simp add: ready_def)
  show ?thesis
    using handshake_first_and_once [where s = "s_resumed\<lparr> pending := wire_bytes [([2], [9, 0xff]), ([1], [4])] \<rparr>"
        and fs = "[([2], [9, 0xff]), ([1], [4])]" and env = env0 and ?fs1.0 = "[]" and ?fs2.0 = "[]"]
      handshake_first_and_once [where s = "s_secure_p\<lparr> pending := wire_bytes [([1], [0])] \<rparr>"
        and fs = "[([1], [0])]" and env = env0 and ?fs1.0 = "[]" and ?fs2.0 = "[]"]
      handshake_first_and_once [where s = "s_resumed\<lparr> pending := wire_bytes [hs_b_frame] \<rparr>"
        and fs = "[hs_b_frame]" and env = env0 and ?fs1.0 = "[]" and ?fs2.0 = "[]"]
      r f d ok twice session_a_reaches handshake_chunk_reaches handshake_twice_refused
      request_after_handshake_accepted
    by (simp add: ready_def HANDSHAKE_def REQUEST_def)
qed

subsection \<open>C10: a frame with an unknown id\<close>

text \<open>C10. A frame whose id is none of 0..5, met by the parser between two messages: the two
  steps of \<open>_parse\<close> that read it (its length, its body) return \<open>true\<close> and leave the state
  as it was, the frame's bytes consumed: no error, no event, \<open>_gotHandshake\<close> unchanged. The
  loop goes on as if the frame had not been there; so, before any \<open>Handshake\<close>, a following
  frame with a known id other than \<open>Handshake\<close>'s still fails with 'Handshake must be the
  first message after Open'.\<close>

theorem unknown_frame_ignored:
  assumes "ready s" and "framed (p, b)" and "pending s = p @ b @ rest"
    and "varint_decode env b = Some (i, off)" and "\<not> known_id i"
  shows "parse env s = Inr (True, s\<lparr> pending := b @ rest, pstate := MsgBody, waiting := enat (length b) \<rparr>) \<and>
         parse env (s\<lparr> pending := b @ rest, pstate := MsgBody, waiting := enat (length b) \<rparr>)
           = Inr (True, s\<lparr> pending := rest \<rparr>) \<and>
         process_loop env s = process_loop env (s\<lparr> pending := rest \<rparr>) \<and>
         (\<forall>p' b' rest' i' off'.
            \<not> gotHandshake s \<and> framed (p', b') \<and> rest = p' @ b' @ rest' \<and>
            varint_decode env b' = Some (i', off') \<and> known_id i' \<and> i' \<noteq> HANDSHAKE \<longrightarrow>
            process_loop env s = Inl (HandshakeFirst, s\<lparr> pending := rest' \<rparr>))"
proof (intro conjI allI impI)
  have p: "terminated p" "length p \<le> 3" "leb128 p = length b" "length b \<le> MAX_PENDING_SIZE"
    using assms(2) by (simp_all add: framed_def)
  have "parseLength s = Inr (True, s\<lparr> pending := b @ rest,
             pstate := (if pstate s = OpenLength then OpenBody else MsgBody),
             waiting := enat (unat (varint_value s) + 2 ^ (7 * 0) * leb128 p),
             varint_value := 0, varint_shift := 0 \<rparr>)"
    using parseLength_decodes [OF p(1) assms(3), of 0] assms(1) p by (simp add: ready_def)
  then show "parse env s = Inr (True, s\<lparr> pending := b @ rest, pstate := MsgBody, waiting := enat (length b) \<rparr>)"
    using assms(1) p(3) by (cases s) (simp add: parse_def ready_def)
next
  show "parse env (s\<lparr> pending := b @ rest, pstate := MsgBody, waiting := enat (length b) \<rparr>)
           = Inr (True, s\<lparr> pending := rest \<rparr>)"
    by (simp add: parse_def parseMessage_body [OF assms(1)] assms(4,5))
next
  show "process_loop env s = process_loop env (s\<lparr> pending := rest \<rparr>)"
    by (rule frame_unknown [OF assms])
next
  fix p' b' rest' i' off'
  assume a: "\<not> gotHandshake s \<and> framed (p', b') \<and> rest = p' @ b' @ rest' \<and>
            varint_decode env b' = Some (i', off') \<and> known_id i' \<and> i' \<noteq> HANDSHAKE"
  let ?s = "s\<lparr> pending := rest \<rparr>"
  have "process_loop env ?s = Inl (HandshakeFirst, ?s\<lparr> pending := rest' \<rparr>)"
    by (rule frame_not_handshake [where p = p' and b = b' and i = i' and off = off'])
       (use a assms(1) in \<open>simp_all add: ready_def\<close>)
  then show "process_loop env s = Inl (HandshakeFirst, s\<lparr> pending := rest' \<rparr>)"
    by (simp add: frame_unknown [OF assms])
qed

theorem unknown_frame_ignored_witness:
  "ready s_resumed \<and> \<not> gotHandshake s_resumed \<and> framed ([2], [9, 0xff]) \<and>
   varint_decode env0 [9, 0xff] = Some (9, 1) \<and> \<not> known_id 9 \<and>
   framed ([1], [4]) \<and> varint_decode env0 [4] = Some (REQUEST, 1) \<and> known_id REQUEST \<and>
   REQUEST \<noteq> HANDSHAKE \<and>
   parse env0 (s_resumed\<lparr> pending := [9, 0xff] @ [1, 4], pstate := MsgBody, waiting := enat 2 \<rparr>)
     = Inr (True, s_resumed\<lparr> pending := [1, 4] \<rparr>) \<and>
   process_loop env0 (s_resumed\<lparr> pending := [2] @ [9, 0xff] @ [1, 4] \<rparr>)
     = Inl (HandshakeFirst, s_resumed\<lparr> pending := [] \<rparr>)"
proof -
  have r: "ready s_resumed" "\<not> gotHandshake s_resumed"
    by (simp_all add: ready_def s_resumed_def s_paused_def s_started_def init_stream_def)
  have f: "framed ([2], [9, 0xff])" "framed ([1], [4])"
    by (simp_all add: framed_def terminated_def continuation_def MAX_PENDING_SIZE_def)
  have d: "varint_decode env0 [9, 0xff] = Some (9, 1)" "varint_decode env0 [4] = Some (REQUEST, 1)"
    "\<not> known_id 9" "known_id REQUEST" "REQUEST \<noteq> HANDSHAKE"
    by (simp_all add: env0_def known_id_def HANDSHAKE_def SYNC_def FILTER_OPTIONS_def DATA_def
        REQUEST_def LINK_def)
  have u: "ready (s_resumed\<lparr> pending := [2] @ [9, 0xff] @ [1, 4] \<rparr>)"
    "pending (s_resumed\<lparr> pending := [2] @ [9, 0xff] @ [1, 4] \<rparr>) = [2] @ [9, 0xff] @ [1, 4]"
    using r by (simp_all add: ready_def)
  note T = unknown_frame_ignored [OF u(1) f(1) u(2) d(1) d(3)]
  have t2: "parse env0 (s_resumed\<lparr> pending := [9, 0xff] @ [1, 4], pstate := MsgBody, waiting := enat 2 \<rparr>)
     = Inr (True, s_resumed\<lparr> pending := [1, 4] \<rparr>)"
    using T [THEN conjunct2, THEN conjunct1] by (simp add: numeral_2_eq_2)
  have t4: "process_loop env0 (s_resumed\<lparr> pending := [2] @ [9, 0xff] @ [1, 4] \<rparr>)
     = Inl (HandshakeFirst, s_resumed\<lparr> pending := [] \<rparr>)"
    using T [THEN conjunct2, THEN conjunct2, THEN conjunct2, rule_format, of "[1]" "[4]" "[]" REQUEST 1]
      r f d
    by simp
  show ?thesis using r f d t2 t4 by simp
qed

subsection \<open>C5: \<open>destroy\<close>\<close>

text \<open>An action that is a call of the API other than \<open>destroy\<close>.\<close>

fun api_call :: "action \<Rightarrow> bool" where
  "api_call (Start options rnd) = True"
| "api_call (CallSync body callback) = True"
| "api_call (CallFilterOptions body callback) = True"
| "api_call (CallData body callback) = True"
| "api_call (CallRequest body callback) = True"
| "api_call a = False"

text \<open>\<open>after f r\<close>: the result \<open>r\<close> with \<open>f\<close> applied to the state it carries.\<close>

definition after :: "(stream \<Rightarrow> stream) \<Rightarrow> stream result \<Rightarrow> stream result" where
  "after f r = (case r of Inl (e, s) \<Rightarrow> Inl (e, f s) | Inr s \<Rightarrow> Inr (f s))"

lemma secureSend_destroy: "secureSend i c cb (destroy s) = after destroy (secureSend i c cb s)"
  by (simp add: secureSend_def send_def destroy_def after_def split: option.splits)

lemma start_destroy: "start env options rnd (destroy s) = after destroy (start env options rnd s)"
  by (simp add: start_def stream_open_def destroy_def after_def Let_def split: option.splits)

text \<open>C5, as the code has it. \<open>destroy\<close> sets \<open>_destroyed\<close> and emits \<open>close\<close>, and nothing but
  \<open>destroy\<close> itself reads the flag. So a second \<open>destroy\<close> changes nothing, and every other
  call of the API (\<open>start\<close>, \<open>sync\<close>, \<open>filterOptions\<close>, \<open>data\<close>, \<open>request\<close>) does after a
  \<open>destroy\<close> exactly what it does without it: it sends, queues, throws and changes the
  state in the same way.\<close>

theorem destroy_only_idempotent:
  "destroy (destroy s) = destroy s \<and>
   (api_call a \<longrightarrow> step env a (destroy s) = after destroy (step env a s))"
proof -
  have "destroy (destroy s) = destroy s"
    by (simp add: destroy_def)
  moreover have "api_call a \<longrightarrow> step env a (destroy s) = after destroy (step env a s)"
    by (cases a) (simp_all add: start_destroy secureSend_destroy sync_def filterOptions_def
        data_def request_def)
  ultimately show ?thesis by simp
qed

theorem destroy_only_idempotent_witness:
  "api_call (CallRequest request_a None) \<and>
   step env0 (CallRequest request_a None) (destroy (init_stream id0))
     = after destroy (step env0 (CallRequest request_a None) (init_stream id0))"
  using destroy_only_idempotent [of "init_stream id0" "CallRequest request_a None" env0]
  by simp

text \<open>C5 as stated fails: on a destroyed session that is not secure yet, \<open>request\<close> still
  queues its message.\<close>

theorem destroy_not_inert_counterexample:
  "queue (outcome (request request_a None (destroy (init_stream id0))))
     = Some [(REQUEST, Request request_a, None)] \<and>
   queue (destroy (init_stream id0)) = Some []"
  by (simp add: request_def secureSend_def destroy_def init_stream_def request_a_def)

subsection \<open>What the loop keeps\<close>

text \<open>The state a step of the parser leaves behind, whether it returned or threw.\<close>

definition outcome_p :: "(bool \<times> stream) result \<Rightarrow> stream" where
  "outcome_p r = (case r of Inl (e, s) \<Rightarrow> s | Inr (c, s) \<Rightarrow> s)"

lemma outcome_p_simps [simp]: "outcome_p (Inl (e, s)) = s" "outcome_p (Inr (c, s)) = s"
  by (simp_all add: outcome_p_def)

text \<open>A property that every step of the parser keeps is kept by the loop, and by
  \<open>_process\<close> when it is indifferent to \<open>_paused.callback\<close>.\<close>

lemma process_loop_keeps:
  assumes "\<And>s. P s \<Longrightarrow> P (outcome_p (parse env s))" and "P s"
  shows "P (outcome (process_loop env s))"
  using assms
proof (induction env s rule: process_loop.induct)
  case (1 env s)
  show ?case
  proof (cases "waiting s \<le> enat (length (pending s))")
    case False
    then show ?thesis using "1.prems"(2) by (simp add: process_loop.simps [of env s])
  next
    case True
    have P': "P (outcome_p (parse env s))" using "1.prems" by simp
    show ?thesis
    proof (cases "parse env s")
      case (Inl e)
      then show ?thesis using P' True by (cases e) (simp add: process_loop.simps [of env s])
    next
      case (Inr r)
      obtain c s' where r: "r = (c, s')" by (cases r)
      have Ps': "P s'" using P' Inr r by simp
      show ?thesis
      proof (cases c)
        case True
        from "1.IH" [OF \<open>waiting s \<le> enat (length (pending s))\<close> Inr r [symmetric] True "1.prems"(1) Ps']
        show ?thesis using Inr r True \<open>waiting s \<le> enat (length (pending s))\<close>
          by (simp add: process_loop.simps [of env s])
      next
        case False
        then show ?thesis using Inr r Ps' \<open>waiting s \<le> enat (length (pending s))\<close>
          by (simp add: process_loop.simps [of env s])
      qed
    qed
  qed
qed

subsection \<open>C8: the length of the chain\<close>

text \<open>The chain, when set, has at most \<open>MAX_CHAIN_LENGTH\<close> links.\<close>

definition chain_ok :: "stream \<Rightarrow> bool" where
  "chain_ok s = (case local_chain s of None \<Rightarrow> True | Some c \<Rightarrow> length c \<le> MAX_CHAIN_LENGTH)"

lemma chain_ok_update [simp]:
  shows
    "chain_ok (s\<lparr> local_id := x0 \<rparr>) = chain_ok s"
    "chain_ok (s\<lparr> feedKey := x1 \<rparr>) = chain_ok s"
    "chain_ok (s\<lparr> feed := x2 \<rparr>) = chain_ok s"
    "chain_ok (s\<lparr> privateKey := x3 \<rparr>) = chain_ok s"
    "chain_ok (s\<lparr> secure := x4 \<rparr>) = chain_ok s"
    "chain_ok (s\<lparr> hyperchain := x5 \<rparr>) = chain_ok s"
    "chain_ok (s\<lparr> startCallback := x6 \<rparr>) = chain_ok s"
    "chain_ok (s\<lparr> destroyed := x7 \<rparr>) = chain_ok s"
    "chain_ok (s\<lparr> nonce_local := x8 \<rparr>) = chain_ok s"
    "chain_ok (s\<lparr> nonce_remote := x9 \<rparr>) = chain_ok s"
    "chain_ok (s\<lparr> nonce_hash := x10 \<rparr>) = chain_ok s"
    "chain_ok (s\<lparr> nonce_reverseHash := x11 \<rparr>) = chain_ok s"
    "chain_ok (s\<lparr> remote_id := x12 \<rparr>) = chain_ok s"
    "chain_ok (s\<lparr> remote_chain := x13 \<rparr>) = chain_ok s"
    "chain_ok (s\<lparr> queue := x14 \<rparr>) = chain_ok s"
    "chain_ok (s\<lparr> openListener := x15 \<rparr>) = chain_ok s"
    "chain_ok (s\<lparr> xor_self := x16 \<rparr>) = chain_ok s"
    "chain_ok (s\<lparr> xor_remote := x17 \<rparr>) = chain_ok s"
    "chain_ok (s\<lparr> pending := x18 \<rparr>) = chain_ok s"
    "chain_ok (s\<lparr> pstate := x19 \<rparr>) = chain_ok s"
    "chain_ok (s\<lparr> waiting := x20 \<rparr>) = chain_ok s"
    "chain_ok (s\<lparr> varint_value := x21 \<rparr>) = chain_ok s"
    "chain_ok (s\<lparr> varint_shift := x22 \<rparr>) = chain_ok s"
    "chain_ok (s\<lparr> gotHandshake := x23 \<rparr>) = chain_ok s"
    "chain_ok (s\<lparr> paused_enabled := x24 \<rparr>) = chain_ok s"
    "chain_ok (s\<lparr> paused_pending := x25 \<rparr>) = chain_ok s"
    "chain_ok (s\<lparr> paused_callback := x26 \<rparr>) = chain_ok s"
    "chain_ok (s\<lparr> pushed := x27 \<rparr>) = chain_ok s"
    "chain_ok (s\<lparr> events := x28 \<rparr>) = chain_ok s"
    "chain_ok (s\<lparr> ticks := x29 \<rparr>) = chain_ok s"
  by (simp_all add: chain_ok_def)

lemma secureSend_chain: "local_chain (outcome (secureSend i c cb s)) = local_chain s"
  by (simp add: secureSend_def send_def split: option.splits)

lemma run_queue_chain: "local_chain (outcome (run_queue q s)) = local_chain s"
proof (induction q arbitrary: s)
  case Nil
  show ?case by simp
next
  case (Cons a q)
  obtain i c cb where a: "a = (i, c, cb)" by (cases a)
  show ?case
  proof (cases "secureSend i c cb s")
    case (Inl e)
    then show ?thesis using secureSend_chain [of i c cb s] a by (cases e) simp
  next
    case (Inr s')
    then show ?thesis using secureSend_chain [of i c cb s] a Cons.IH [of s'] by simp
  qed
qed

lemma drainQueue_chain: "local_chain (outcome (drainQueue s)) = local_chain s"
  using run_queue_chain [of _ "s\<lparr>queue := None\<rparr>"]
  by (simp add: drainQueue_def split: option.splits)

lemma issueTrustLink_chain: "local_chain (outcome (issueTrustLink env s)) = local_chain s"
  using secureSend_chain [of _ _ _ s]
  by (simp add: issueTrustLink_def split: option.splits)

lemma onHandshake_chain: "local_chain (outcome (onHandshake env body s)) = local_chain s"
proof -
  let ?s1 = "s\<lparr> remote_id := Some (hs_id body), remote_chain := Some (hs_chain body),
                  secure := True,
                  events := events s @ [EvSecure (hs_id body) (hs_chain body)] \<rparr>"
  have "local_chain (outcome (case drainQueue ?s1 of Inl e \<Rightarrow> Inl e | Inr s2 \<Rightarrow> issueTrustLink env s2))
          = local_chain s"
  proof (cases "drainQueue ?s1")
    case (Inl e)
    then show ?thesis using drainQueue_chain [of ?s1] by (cases e) simp
  next
    case (Inr s2)
    then show ?thesis using drainQueue_chain [of ?s1] issueTrustLink_chain [of env s2] by simp
  qed
  then show ?thesis by (simp add: onHandshake_def split: option.splits)
qed

lemma onLink_chain_ok: "chain_ok s \<Longrightarrow> chain_ok (outcome (onLink env body s))"
  by (auto simp: onLink_def chain_ok_def Let_def split: option.splits)

lemma chain_ok_same: "local_chain s' = local_chain s \<Longrightarrow> chain_ok s \<Longrightarrow> chain_ok s'"
  by (simp add: chain_ok_def)

lemma dispatch_chain_ok: "chain_ok s \<Longrightarrow> chain_ok (outcome (dispatch env i msg off s))"
  by (simp add: dispatch_def onData_def emit_message_def onLink_chain_ok
      chain_ok_same [OF onHandshake_chain] split: option.splits)

lemma parseLength_chain: "local_chain (outcome_p (parseLength s)) = local_chain s"
proof (induction s rule: parseLength.induct)
  case (1 s)
  show ?case
  proof (cases "pending s")
    case Nil
    then show ?thesis by (simp add: parseLength.simps [of s])
  next
    case (Cons b bs)
    let ?s1 = "s\<lparr> pending := bs,
       varint_value := varint_value s OR push_bit (varint_shift s mod 32) (ucast (b AND 0x7f)),
       varint_shift := varint_shift s + 7 \<rparr>"
    show ?thesis
    proof (cases "\<not> 25 \<le> varint_shift ?s1 \<and> b AND 0x80 \<noteq> 0")
      case True
      then have "parseLength s = parseLength ?s1"
        using Cons by (simp add: parseLength.simps [of s] Let_def)
      moreover have "local_chain (outcome_p (parseLength ?s1)) = local_chain ?s1"
        using "1.IH" [OF Cons refl refl refl] True by simp
      ultimately show ?thesis by simp
    next
      case False
      then show ?thesis using Cons
        by (auto simp: parseLength.simps [of s] Let_def setState_def)
    qed
  qed
qed

lemma parse_chain_ok: "chain_ok s \<Longrightarrow> chain_ok (outcome_p (parse env s))"
proof -
  assume ok: "chain_ok s"
  have magic: "local_chain (outcome_p (parseMagic s)) = local_chain s"
    by (simp add: parseMagic_def take_pending_def setState_def)
  have op: "local_chain (outcome_p (parseOpen env s)) = local_chain s"
    by (simp add: parseOpen_def take_pending_def setState_def Let_def emit_open_def onOpen_def
        onStart_def split: enat.splits option.splits)
  have msg: "chain_ok (outcome_p (parseMessage env s))"
  proof (cases "take_pending (waiting s) s")
    case (Inl e)
    then show ?thesis using ok
      by (cases e) (auto simp: parseMessage_def take_pending_def split: enat.splits if_splits)
  next
    case (Inr r)
    obtain m s0 where r: "r = (m, s0)" by (cases r)
    have s0: "local_chain s0 = local_chain s"
      using Inr r by (auto simp: take_pending_def split: enat.splits if_splits)
    let ?s1 = "setState MsgLength (enat 1) s0"
    have ok1: "chain_ok (?s1\<lparr>gotHandshake := True\<rparr>)" "chain_ok ?s1"
      using ok s0 by (simp_all add: chain_ok_def setState_def)
    show ?thesis
    proof (cases "varint_decode env m")
      case None
      then show ?thesis using Inr r ok1 by (simp add: parseMessage_def)
    next
      case (Some a)
      obtain i off where a: "a = (i, off)" by (cases a)
      show ?thesis
        using Inr r Some a ok1 dispatch_chain_ok [OF ok1(1), of env i m off]
        by (cases "dispatch env i m off (?s1\<lparr>gotHandshake := True\<rparr>)")
           (auto simp: parseMessage_def Let_def)
    qed
  qed
  show ?thesis
    using ok magic op msg parseLength_chain [of s]
    by (simp add: parse_def chain_ok_def)
qed

lemma process_chain_ok: "chain_ok s \<Longrightarrow> chain_ok (outcome (process env s))"
proof -
  assume "chain_ok s"
  then have "chain_ok (outcome (process_loop env s))"
    using process_loop_keeps [of chain_ok env s] parse_chain_ok by blast
  then show ?thesis
    by (cases "process_loop env s") (auto simp: process_def chain_ok_def)
qed

lemma write_chunk_chain_ok: "chain_ok s \<Longrightarrow> chain_ok (outcome (write_chunk env chunk s))"
  by (simp add: write_chunk_def process_chain_ok split: option.splits prod.splits)

lemma resumeParsing_chain_ok: "chain_ok s \<Longrightarrow> chain_ok (outcome (resumeParsing env s))"
  by (simp add: resumeParsing_def Let_def setState_def process_chain_ok
      split: option.splits prod.splits)

lemma handshake_chain: "local_chain (outcome (handshake env s)) = local_chain s"
  by (simp add: handshake_def send_def split: option.splits)

lemma onOpen_callback_chain_ok: "chain_ok s \<Longrightarrow> chain_ok (outcome (onOpen_callback env m s))"
proof -
  assume ok: "chain_ok s"
  have "chain_ok (outcome (case handshake env t of Inl e \<Rightarrow> Inl e | Inr s4 \<Rightarrow> resumeParsing env s4))"
    if "chain_ok t" for t
  proof (cases "handshake env t")
    case (Inl e)
    then show ?thesis using handshake_chain [of env t] that by (cases e) (simp add: chain_ok_same)
  next
    case (Inr s4)
    then have "chain_ok s4" using handshake_chain [of env t] that by (simp add: chain_ok_same)
    then show ?thesis using Inr by (simp add: resumeParsing_chain_ok)
  qed
  then show ?thesis using ok
    by (simp add: onOpen_callback_def Let_def split: option.splits)
qed

lemma start_chain_ok: "chain_ok s \<Longrightarrow> chain_ok (outcome (start env options rnd s))"
  by (simp add: start_def stream_open_def Let_def chain_ok_def split: option.splits)

lemma step_chain_ok: "chain_ok s \<Longrightarrow> chain_ok (outcome (step env a s))"
proof (cases a)
  case (Start options rnd)
  then show "chain_ok s \<Longrightarrow> ?thesis" by (simp add: start_chain_ok)
next
  case (WriteChunk chunk)
  then show "chain_ok s \<Longrightarrow> ?thesis" by (simp add: write_chunk_chain_ok)
next
  case Tick
  then show "chain_ok s \<Longrightarrow> ?thesis"
    using onOpen_callback_chain_ok [of "s\<lparr>ticks := tl (ticks s)\<rparr>" env]
    by (auto simp: run_tick_def chain_ok_def split: list.splits tick.splits)
qed (use secureSend_chain [of _ _ _ s] in
      \<open>simp_all add: sync_def filterOptions_def data_def request_def destroy_def chain_ok_def\<close>)

lemma exec_chain_ok: "chain_ok s \<Longrightarrow> chain_ok (exec env acts s)"
  by (induction acts arbitrary: s) (simp_all add: step_chain_ok)


lemma start_rejects_long_chain:
  "o_chain options = Some c \<Longrightarrow> MAX_CHAIN_LENGTH < length c \<Longrightarrow>
     start env options rnd s = Inl (AssertionFailed, s)"
  by (simp add: start_def split: option.splits)

lemma onLink_replaces_shorter:
  assumes "onLink env body s = Inr s'" "local_chain s' \<noteq> local_chain s"
  shows "\<exists>c rc. local_chain s = Some c \<and> remote_chain s = Some rc \<and>
           local_chain s' = Some (rc @ [lk_link body]) \<and> length (rc @ [lk_link body]) < length c"
  using assms by (auto simp: onLink_def Let_def split: option.splits if_splits)

text \<open>C8. Whatever happens to a session after its construction (calls of its API, chunks
  written, ticks; an operation that throws leaves the state it reached), its chain, once
  set, has at most \<open>MAX_CHAIN_LENGTH\<close> links. \<open>start\<close> throws before it changes anything when
  the chain it is given is longer. \<open>_onLink\<close> keeps the bound; when it replaces the chain,
  the new chain is the remote chain with the link appended, and is strictly shorter than
  the chain it replaces.\<close>

theorem chain_never_longer_than_max:
  "chain_ok (exec env acts (init_stream i)) \<and>
   (\<forall>c. o_chain options = Some c \<and> MAX_CHAIN_LENGTH < length c \<longrightarrow>
      start env options rnd s = Inl (AssertionFailed, s)) \<and>
   (chain_ok s \<longrightarrow> chain_ok (outcome (onLink env body s))) \<and>
   (\<forall>s'. onLink env body s = Inr s' \<and> local_chain s' \<noteq> local_chain s \<longrightarrow>
      (\<exists>c rc. local_chain s = Some c \<and> remote_chain s = Some rc \<and>
         local_chain s' = Some (rc @ [lk_link body]) \<and>
         length (rc @ [lk_link body]) < length c))"
proof -
  have "chain_ok (init_stream i)"
    by (simp add: chain_ok_def init_stream_def)
  then have "chain_ok (exec env acts (init_stream i))"
    by (rule exec_chain_ok)
  then show ?thesis
    using start_rejects_long_chain onLink_chain_ok onLink_replaces_shorter by blast
qed

text \<open>Options with a chain of six links; a session whose chain of three links can be
  shortened through a remote chain of one.\<close>

definition opts6 :: start_options where
  "opts6 = opts0\<lparr> o_chain := Some (replicate 6 fk0) \<rparr>"

definition s_long :: stream where
  "s_long = s_secure\<lparr> local_chain := Some [replicate 32 3, replicate 32 4, replicate 32 6],
     remote_chain := Some [replicate 32 3], privateKey := Some (replicate 32 8 @ replicate 32 9) \<rparr>"

theorem chain_never_longer_than_max_witness:
  "chain_ok (exec env0 [Start opts0 nonce_a, WriteChunk open_b_chunk, Tick] (init_stream id0)) \<and>
   o_chain opts6 = Some (replicate 6 fk0) \<and> MAX_CHAIN_LENGTH < length (replicate 6 fk0) \<and>
   start env0 opts6 nonce_a (init_stream id0) = Inl (AssertionFailed, init_stream id0) \<and>
   chain_ok s_long \<and>
   onLink env0 \<lparr> lk_link = replicate 32 8 \<rparr> s_long
     = Inr (s_long\<lparr> local_chain := Some [replicate 32 3, replicate 32 8],
                    events := events s_long @ [EvChainUpdate [replicate 32 3, replicate 32 8]] \<rparr>) \<and>
   chain_ok (outcome (onLink env0 \<lparr> lk_link = replicate 32 8 \<rparr> s_long))"
proof -
  have o: "o_chain opts6 = Some (replicate 6 fk0)" "MAX_CHAIN_LENGTH < length (replicate 6 fk0)"
    by (simp_all add: opts6_def MAX_CHAIN_LENGTH_def)
  have c: "chain_ok s_long"
    by (simp add: chain_ok_def s_long_def MAX_CHAIN_LENGTH_def)
  have l: "onLink env0 \<lparr> lk_link = replicate 32 8 \<rparr> s_long
     = Inr (s_long\<lparr> local_chain := Some [replicate 32 3, replicate 32 8],
                    events := events s_long @ [EvChainUpdate [replicate 32 3, replicate 32 8]] \<rparr>)"
    by (simp add: onLink_def s_long_def s_secure_def s_resumed_def s_paused_def s_started_def
        init_stream_def env0_fields EMPTY_HASH_def HASH_SIZE_def Let_def)
  show ?thesis
    using chain_never_longer_than_max [of env0 "[Start opts0 nonce_a, WriteChunk open_b_chunk, Tick]" id0
        opts6 nonce_a "init_stream id0" "\<lparr> lk_link = replicate 32 8 \<rparr>"]
      chain_never_longer_than_max [of env0 "[]" id0 opts6 nonce_a s_long "\<lparr> lk_link = replicate 32 8 \<rparr>"]
      o c l
    by simp
qed

subsection \<open>C9: what \<open>request\<close> validates\<close>

text \<open>C9, as the code has it. \<open>_secureSend\<close> calls \<open>Type.encodingLength\<close> "just to validate
  that all required fields are present": a \<open>request\<close> is rejected, before anything is queued
  or sent and with the state unchanged, exactly when \<open>start\<close> is missing. The value of
  \<open>limit\<close> plays no part: with \<open>start\<close> present the call is queued before \<open>secure\<close> and sent
  after it, whether \<open>limit\<close> is left out, 0 or positive.\<close>

theorem request_checks_required_only:
  "(rq_start body = None \<longrightarrow> request body callback s = Inl (RequiredFieldMissing, s)) \<and>
   (rq_start body \<noteq> None \<and> \<not> secure s \<and> queue s = Some q \<longrightarrow>
      request body callback s =
        Inr (s\<lparr> queue := Some (q @ [(REQUEST, Request body, callback)]) \<rparr>)) \<and>
   (rq_start body \<noteq> None \<and> secure s \<and> xor_self s \<noteq> None \<longrightarrow>
      request body callback s =
        Inr (s\<lparr> pushed := pushed s @ [WFrame REQUEST (Request body)],
                ticks := ticks s @ (case callback of None \<Rightarrow> [] | Some k \<Rightarrow> [SendCallback k]) \<rparr>))"
  by (auto simp: request_def secureSend_def send_def)

theorem request_checks_required_only_witness:
  "rq_start \<lparr> rq_start = None, rq_end = None, rq_limit = Some 3 \<rparr> = None \<and>
   request \<lparr> rq_start = None, rq_end = None, rq_limit = Some 3 \<rparr> None (init_stream id0)
     = Inl (RequiredFieldMissing, init_stream id0) \<and>
   rq_start request_limit0 \<noteq> None \<and> \<not> secure (init_stream id0) \<and>
   queue (init_stream id0) = Some [] \<and>
   request request_limit0 None (init_stream id0)
     = Inr ((init_stream id0)\<lparr> queue := Some ([] @ [(REQUEST, Request request_limit0, None)]) \<rparr>)"
  using request_checks_required_only
      [of "\<lparr> rq_start = None, rq_end = None, rq_limit = Some 3 \<rparr>" None "init_stream id0" "[]"]
    request_checks_required_only [of request_limit0 None "init_stream id0" "[]"]
  by (simp add: init_stream_def request_limit0_def)

text \<open>C9 as stated fails: a \<open>request\<close> whose \<open>limit\<close> is present and 0 is queued.\<close>

theorem request_limit_zero_counterexample:
  "rq_limit request_limit0 = Some 0 \<and>
   request request_limit0 None (init_stream id0)
     = Inr ((init_stream id0)\<lparr> queue := Some [(REQUEST, Request request_limit0, None)] \<rparr>)"
  by (simp add: request_def secureSend_def init_stream_def request_limit0_def)


subsection \<open>What a session never undoes\<close>

text \<open>What no step of the parser and no handler undoes: the keys and the paired hashes
  stay, a secure session stays secure, and what was pushed stays pushed.\<close>

definition evolves :: "stream \<Rightarrow> stream \<Rightarrow> bool" where
  "evolves s s' =
     (nonce_hash s' = nonce_hash s \<and> nonce_reverseHash s' = nonce_reverseHash s \<and>
      hyperchain s' = hyperchain s \<and> privateKey s' = privateKey s \<and>
      feedKey s' = feedKey s \<and> xor_self s' = xor_self s \<and>
      (if secure s then secure s' else True) \<and>
      prefix (pushed s) (pushed s'))"

lemma evolves_refl [simp]: "evolves s s"
  by (simp add: evolves_def)

lemma evolves_trans: "evolves s t \<Longrightarrow> evolves t u \<Longrightarrow> evolves s u"
  unfolding evolves_def by (auto split: if_splits)

lemma evolves_outcome_seq:
  assumes "evolves s (outcome r)" "\<And>t. r = Inr t \<Longrightarrow> evolves t (outcome (f t))"
  shows "evolves s (outcome (case r of Inl e \<Rightarrow> Inl e | Inr t \<Rightarrow> f t))"
proof (cases r)
  case (Inl e)
  then show ?thesis using assms(1) by (cases e) simp
next
  case (Inr t)
  then show ?thesis using assms evolves_trans by fastforce
qed

lemma send_evolves: "evolves s (outcome (send i c cb s))"
  by (simp add: send_def evolves_def split: option.splits)

lemma secureSend_evolves: "evolves s (outcome (secureSend i c cb s))"
  using send_evolves [of s i c cb]
  by (simp add: secureSend_def evolves_def split: option.splits)

lemma run_queue_evolves: "evolves s (outcome (run_queue q s))"
proof (induction q arbitrary: s)
  case Nil
  show ?case by simp
next
  case (Cons a q)
  obtain i c cb where a: "a = (i, c, cb)" by (cases a)
  show ?case
    unfolding a run_queue.simps
    by (rule evolves_outcome_seq [OF secureSend_evolves Cons.IH])
qed

lemma drainQueue_evolves: "evolves s (outcome (drainQueue s))"
proof (cases "queue s")
  case None
  then show ?thesis by (simp add: drainQueue_def)
next
  case (Some q)
  have "evolves s (s\<lparr>queue := None\<rparr>)" by (simp add: evolves_def)
  then show ?thesis
    using Some run_queue_evolves [of "s\<lparr>queue := None\<rparr>" q] evolves_trans
    by (fastforce simp: drainQueue_def)
qed

lemma issueTrustLink_evolves: "evolves s (outcome (issueTrustLink env s))"
  using secureSend_evolves [of s]
  by (simp add: issueTrustLink_def split: option.splits)

lemma onHandshake_evolves: "evolves s (outcome (onHandshake env body s))"
proof -
  let ?s1 = "s\<lparr> remote_id := Some (hs_id body), remote_chain := Some (hs_chain body),
                  secure := True,
                  events := events s @ [EvSecure (hs_id body) (hs_chain body)] \<rparr>"
  have 1: "evolves s ?s1" by (simp add: evolves_def)
  have "evolves ?s1 (outcome (case drainQueue ?s1 of Inl e \<Rightarrow> Inl e | Inr s2 \<Rightarrow> issueTrustLink env s2))"
    by (rule evolves_outcome_seq [OF drainQueue_evolves issueTrustLink_evolves])
  with 1 have "evolves s (outcome (case drainQueue ?s1 of Inl e \<Rightarrow> Inl e | Inr s2 \<Rightarrow> issueTrustLink env s2))"
    by (rule evolves_trans)
  then show ?thesis by (simp add: onHandshake_def split: option.splits)
qed

lemma onLink_evolves: "evolves s (outcome (onLink env body s))"
  by (simp add: onLink_def evolves_def Let_def split: option.splits)

lemma dispatch_evolves: "evolves s (outcome (dispatch env i msg off s))"
  using onHandshake_evolves [of s env] onLink_evolves [of s env]
  by (simp add: dispatch_def onData_def split: option.splits)
     (simp add: emit_message_def evolves_def)

lemma evolves_update [simp]:
  shows
    "evolves s (t\<lparr> local_id := x0 \<rparr>) = evolves s t"
    "evolves s (t\<lparr> feed := x1 \<rparr>) = evolves s t"
    "evolves s (t\<lparr> local_chain := x2 \<rparr>) = evolves s t"
    "evolves s (t\<lparr> startCallback := x3 \<rparr>) = evolves s t"
    "evolves s (t\<lparr> destroyed := x4 \<rparr>) = evolves s t"
    "evolves s (t\<lparr> nonce_local := x5 \<rparr>) = evolves s t"
    "evolves s (t\<lparr> nonce_remote := x6 \<rparr>) = evolves s t"
    "evolves s (t\<lparr> remote_id := x7 \<rparr>) = evolves s t"
    "evolves s (t\<lparr> remote_chain := x8 \<rparr>) = evolves s t"
    "evolves s (t\<lparr> queue := x9 \<rparr>) = evolves s t"
    "evolves s (t\<lparr> openListener := x10 \<rparr>) = evolves s t"
    "evolves s (t\<lparr> xor_remote := x11 \<rparr>) = evolves s t"
    "evolves s (t\<lparr> pending := x12 \<rparr>) = evolves s t"
    "evolves s (t\<lparr> pstate := x13 \<rparr>) = evolves s t"
    "evolves s (t\<lparr> waiting := x14 \<rparr>) = evolves s t"
    "evolves s (t\<lparr> varint_value := x15 \<rparr>) = evolves s t"
    "evolves s (t\<lparr> varint_shift := x16 \<rparr>) = evolves s t"
    "evolves s (t\<lparr> gotHandshake := x17 \<rparr>) = evolves s t"
    "evolves s (t\<lparr> paused_enabled := x18 \<rparr>) = evolves s t"
    "evolves s (t\<lparr> paused_pending := x19 \<rparr>) = evolves s t"
    "evolves s (t\<lparr> paused_callback := x20 \<rparr>) = evolves s t"
    "evolves s (t\<lparr> events := x21 \<rparr>) = evolves s t"
    "evolves s (t\<lparr> ticks := x22 \<rparr>) = evolves s t"
  by (simp_all add: evolves_def)

lemma parseLength_evolves: "evolves s (outcome_p (parseLength s))"
proof (induction s rule: parseLength.induct)
  case (1 s)
  show ?case
  proof (cases "pending s")
    case Nil
    then show ?thesis by (simp add: parseLength.simps [of s])
  next
    case (Cons b bs)
    let ?s1 = "s\<lparr> pending := bs,
       varint_value := varint_value s OR push_bit (varint_shift s mod 32) (ucast (b AND 0x7f)),
       varint_shift := varint_shift s + 7 \<rparr>"
    show ?thesis
    proof (cases "\<not> 25 \<le> varint_shift ?s1 \<and> b AND 0x80 \<noteq> 0")
      case True
      then have "parseLength s = parseLength ?s1"
        using Cons by (simp add: parseLength.simps [of s] Let_def)
      moreover have "evolves ?s1 (outcome_p (parseLength ?s1))"
        using "1.IH" [OF Cons refl refl refl] True by simp
      moreover have "evolves s ?s1" by simp
      ultimately show ?thesis by (simp add: evolves_trans [of s ?s1])
    next
      case False
      then show ?thesis using Cons
        by (auto simp: parseLength.simps [of s] Let_def setState_def)
    qed
  qed
qed

lemma parse_evolves: "evolves s (outcome_p (parse env s))"
proof -
  have magic: "evolves s (outcome_p (parseMagic s))"
    by (simp add: parseMagic_def take_pending_def setState_def)
  have op: "evolves s (outcome_p (parseOpen env s))"
    by (simp add: parseOpen_def take_pending_def setState_def Let_def emit_open_def onOpen_def
        onStart_def split: enat.splits option.splits)
  have msg: "evolves s (outcome_p (parseMessage env s))"
  proof (cases "take_pending (waiting s) s")
    case (Inl e)
    then show ?thesis
      by (cases e) (auto simp: parseMessage_def take_pending_def split: enat.splits if_splits)
  next
    case (Inr r)
    obtain m s0 where r: "r = (m, s0)" by (cases r)
    obtain n where s0: "s0 = s\<lparr>pending := drop n (pending s)\<rparr>"
      using Inr r by (auto simp: take_pending_def split: enat.splits if_splits)
    let ?s1 = "setState MsgLength (enat 1) s0"
    have e1: "evolves s ?s1" "evolves s (?s1\<lparr>gotHandshake := True\<rparr>)"
      by (simp_all add: s0 setState_def)
    show ?thesis
    proof (cases "varint_decode env m")
      case None
      then show ?thesis using Inr r e1 by (simp add: parseMessage_def)
    next
      case (Some a)
      obtain i off where a: "a = (i, off)" by (cases a)
      have "evolves s (outcome (dispatch env i m off (?s1\<lparr>gotHandshake := True\<rparr>)))"
        using e1(2) dispatch_evolves evolves_trans by blast
      then show ?thesis
        using Inr r Some a e1
        by (cases "dispatch env i m off (?s1\<lparr>gotHandshake := True\<rparr>)")
           (auto simp: parseMessage_def Let_def)
    qed
  qed
  show ?thesis
    using magic op msg parseLength_evolves [of s] by (simp add: parse_def)
qed


lemma process_evolves: "evolves s (outcome (process env s))"
proof -
  have "evolves s (outcome (process_loop env s))"
  proof (rule process_loop_keeps [where P = "evolves s"])
    fix t
    assume "evolves s t"
    then show "evolves s (outcome_p (parse env t))"
      using parse_evolves evolves_trans by blast
  qed simp
  then show ?thesis
    by (cases "process_loop env s") (auto simp: process_def)
qed

lemma write_chunk_evolves: "evolves s (outcome (write_chunk env chunk s))"
proof -
  have "evolves s (outcome (process env (s\<lparr>xor_remote := x, pending := p\<rparr>)))" for x p
    using process_evolves [of "s\<lparr>xor_remote := x, pending := p\<rparr>" env]
      evolves_trans [of s "s\<lparr>xor_remote := x, pending := p\<rparr>"]
    by simp
  moreover have "evolves s (outcome (process env (s\<lparr>pending := p\<rparr>)))" for p
    using process_evolves [of "s\<lparr>pending := p\<rparr>" env] evolves_trans [of s "s\<lparr>pending := p\<rparr>"]
    by simp
  ultimately show ?thesis
    by (simp add: write_chunk_def split: option.splits prod.splits)
qed

lemma resumeParsing_evolves: "evolves s (outcome (resumeParsing env s))"
proof -
  have "evolves s (outcome (process env (s\<lparr>pstate := a, waiting := b, paused_enabled := c,
      paused_pending := d, xor_remote := x, pending := p, paused_callback := e\<rparr>)))" for a b c d x p e
    using process_evolves [of "s\<lparr>pstate := a, waiting := b, paused_enabled := c,
      paused_pending := d, xor_remote := x, pending := p, paused_callback := e\<rparr>" env]
      evolves_trans [of s "s\<lparr>pstate := a, waiting := b, paused_enabled := c,
      paused_pending := d, xor_remote := x, pending := p, paused_callback := e\<rparr>"]
    by simp
  then show ?thesis
    by (simp add: resumeParsing_def Let_def setState_def split: option.splits prod.splits)
qed


subsection \<open>C6: the paired hashes of two sessions\<close>

text \<open>A handshake whose signature verifies against the reverse paired hash makes the
  session secure, whatever the handler does after the verification.\<close>

lemma onHandshake_secure:
  assumes "hyperchain t = Some fk" "nonce_reverseHash t = Some rh"
    "chain_verify env fk (hs_chain body) rh (hs_signature body)"
  shows "secure (outcome (onHandshake env body t))"
proof -
  let ?s1 = "t\<lparr> remote_id := Some (hs_id body), remote_chain := Some (hs_chain body),
                  secure := True,
                  events := events t @ [EvSecure (hs_id body) (hs_chain body)] \<rparr>"
  have "evolves ?s1 (outcome (case drainQueue ?s1 of Inl e \<Rightarrow> Inl e | Inr s2 \<Rightarrow> issueTrustLink env s2))"
    by (rule evolves_outcome_seq [OF drainQueue_evolves issueTrustLink_evolves])
  then have "secure (outcome (case drainQueue ?s1 of Inl e \<Rightarrow> Inl e | Inr s2 \<Rightarrow> issueTrustLink env s2))"
    by (simp add: evolves_def)
  then show ?thesis using assms by (simp add: onHandshake_def)
qed

text \<open>What the callback of \<open>_onOpen\<close> leaves, when the feeds agree and \<open>start\<close> has run.\<close>

lemma onOpen_callback_pairs:
  assumes "nonce_local a = Some na" "feed a = Some f" "feedKey a = Some fk"
    "privateKey a = Some ska" "local_chain a = Some ca" "xor_self a \<noteq> None"
  shows "nonce_hash (outcome (onOpen_callback env \<lparr> op_feed = f, op_nonce = nb \<rparr> a))
           = Some (hash env (na @ nb))"
    and "nonce_reverseHash (outcome (onOpen_callback env \<lparr> op_feed = f, op_nonce = nb \<rparr> a))
           = Some (hash env (nb @ na))"
    and "hyperchain (outcome (onOpen_callback env \<lparr> op_feed = f, op_nonce = nb \<rparr> a)) = hyperchain a"
    and "WFrame HANDSHAKE (Handshake \<lparr> hs_id = local_id a, hs_extensions = [],
            hs_signature = sign env (hash env (na @ nb)) ska, hs_chain = ca \<rparr>)
           \<in> set (pushed (outcome (onOpen_callback env \<lparr> op_feed = f, op_nonce = nb \<rparr> a)))"
proof -
  let ?h = "Handshake \<lparr> hs_id = local_id a, hs_extensions = [],
            hs_signature = sign env (hash env (na @ nb)) ska, hs_chain = ca \<rparr>"
  let ?s3 = "a\<lparr> nonce_remote := Some nb, nonce_hash := Some (hash env (na @ nb)),
      nonce_reverseHash := Some (hash env (nb @ na)), nonce_local := None, nonce_remote := None,
      xor_remote := Some (nb, fk, 0) \<rparr>"
  let ?s4 = "?s3\<lparr> pushed := pushed a @ [WFrame HANDSHAKE ?h] \<rparr>"
  have hs: "handshake env ?s3 = Inr ?s4"
    using assms by (auto simp: handshake_def send_def)
  have cb: "onOpen_callback env \<lparr> op_feed = f, op_nonce = nb \<rparr> a = resumeParsing env ?s4"
    using assms hs by (simp add: onOpen_callback_def Let_def)
  have ev: "evolves ?s4 (outcome (resumeParsing env ?s4))"
    by (rule resumeParsing_evolves)
  have "prefix (pushed ?s4) (pushed (outcome (resumeParsing env ?s4)))"
    using ev by (simp add: evolves_def)
  then have mem: "WFrame HANDSHAKE ?h \<in> set (pushed (outcome (resumeParsing env ?s4)))"
    by (auto simp: prefix_def)
  show "nonce_hash (outcome (onOpen_callback env \<lparr> op_feed = f, op_nonce = nb \<rparr> a))
           = Some (hash env (na @ nb))"
    and "nonce_reverseHash (outcome (onOpen_callback env \<lparr> op_feed = f, op_nonce = nb \<rparr> a))
           = Some (hash env (nb @ na))"
    and "hyperchain (outcome (onOpen_callback env \<lparr> op_feed = f, op_nonce = nb \<rparr> a)) = hyperchain a"
    using ev by (simp_all add: cb evolves_def)
  show "WFrame HANDSHAKE ?h
           \<in> set (pushed (outcome (onOpen_callback env \<lparr> op_feed = f, op_nonce = nb \<rparr> a)))"
    using mem by (simp add: cb)
qed


text \<open>C6. Two sessions \<open>a\<close> and \<open>b\<close> started on the same feed, with local nonces \<open>na\<close> and
  \<open>nb\<close>, each run the callback of \<open>_onOpen\<close> on the other's \<open>Open\<close>. Then the paired hash
  of one is the reverse paired hash of the other, each pushes a \<open>Handshake\<close> signed over its
  own paired hash, and, the signature of a key verifying against its holder's chain,
  \<open>_onHandshake\<close> run by either on the other's \<open>Handshake\<close>, in any state \<open>ta\<close>, \<open>tb\<close> that
  evolved from there, ends with \<open>secure\<close> set.\<close>

theorem paired_hashes_agree:
  assumes "nonce_local a = Some na" and "feed a = Some f" and "feedKey a = Some fk"
    and "hyperchain a = Some fk" and "privateKey a = Some ska" and "local_chain a = Some ca"
    and "xor_self a \<noteq> None"
    and "nonce_local b = Some nb" and "feed b = Some f" and "feedKey b = Some fk"
    and "hyperchain b = Some fk" and "privateKey b = Some skb" and "local_chain b = Some cb"
    and "xor_self b \<noteq> None"
    and "\<forall>h. chain_verify env fk ca h (sign env h ska)"
    and "\<forall>h. chain_verify env fk cb h (sign env h skb)"
    and "evolves (outcome (onOpen_callback env \<lparr> op_feed = f, op_nonce = nb \<rparr> a)) ta"
    and "evolves (outcome (onOpen_callback env \<lparr> op_feed = f, op_nonce = na \<rparr> b)) tb"
  shows "let a' = outcome (onOpen_callback env \<lparr> op_feed = f, op_nonce = nb \<rparr> a);
             b' = outcome (onOpen_callback env \<lparr> op_feed = f, op_nonce = na \<rparr> b);
             ha = \<lparr> hs_id = local_id a, hs_extensions = [],
                    hs_signature = sign env (hash env (na @ nb)) ska, hs_chain = ca \<rparr>;
             hb = \<lparr> hs_id = local_id b, hs_extensions = [],
                    hs_signature = sign env (hash env (nb @ na)) skb, hs_chain = cb \<rparr>
         in nonce_hash a' = Some (hash env (na @ nb)) \<and> nonce_reverseHash b' = nonce_hash a' \<and>
            nonce_hash b' = Some (hash env (nb @ na)) \<and> nonce_reverseHash a' = nonce_hash b' \<and>
            WFrame HANDSHAKE (Handshake ha) \<in> set (pushed a') \<and>
            WFrame HANDSHAKE (Handshake hb) \<in> set (pushed b') \<and>
            secure (outcome (onHandshake env hb ta)) \<and>
            secure (outcome (onHandshake env ha tb))"
proof -
  let ?a' = "outcome (onOpen_callback env \<lparr> op_feed = f, op_nonce = nb \<rparr> a)"
  let ?b' = "outcome (onOpen_callback env \<lparr> op_feed = f, op_nonce = na \<rparr> b)"
  let ?ha = "\<lparr> hs_id = local_id a, hs_extensions = [],
                    hs_signature = sign env (hash env (na @ nb)) ska, hs_chain = ca \<rparr>"
  let ?hb = "\<lparr> hs_id = local_id b, hs_extensions = [],
                    hs_signature = sign env (hash env (nb @ na)) skb, hs_chain = cb \<rparr>"
  note A = onOpen_callback_pairs [OF assms(1,2,3,5,6,7), of env nb]
  note B = onOpen_callback_pairs [OF assms(8,9,10,12,13,14), of env na]
  have ta: "hyperchain ta = Some fk" "nonce_reverseHash ta = Some (hash env (nb @ na))"
    using assms(17) A assms(4) by (simp_all add: evolves_def)
  have tb: "hyperchain tb = Some fk" "nonce_reverseHash tb = Some (hash env (na @ nb))"
    using assms(18) B assms(11) by (simp_all add: evolves_def)
  have sa: "secure (outcome (onHandshake env ?hb ta))"
    by (rule onHandshake_secure [where fk = fk and rh = "hash env (nb @ na)"])
       (use ta assms(16) in simp_all)
  have sb: "secure (outcome (onHandshake env ?ha tb))"
    by (rule onHandshake_secure [where fk = fk and rh = "hash env (na @ nb)"])
       (use tb assms(15) in simp_all)
  show ?thesis
    unfolding Let_def using A(1,2,4) B(1,2,4) sa sb by simp
qed

text \<open>The peer \<open>B\<close>, whose key pair is the feed's too, after \<open>start\<close> and after it has parsed
  the \<open>Open\<close> of \<open>A\<close>.\<close>

definition id_b :: buffer where
  "id_b = replicate 32 5"

definition open_a :: open_msg where
  "open_a = \<lparr> op_feed = fk0, op_nonce = nonce_a \<rparr>"

definition s_started_b :: stream where
  "s_started_b = (init_stream id_b)\<lparr> feedKey := Some fk0, feed := Some fk0, privateKey := Some sk0,
      local_chain := Some [], hyperchain := Some fk0, nonce_local := Some nonce_b,
      pushed := [WOpen \<lparr> op_feed = fk0, op_nonce = nonce_b \<rparr>], xor_self := Some (nonce_b, fk0) \<rparr>"

definition s_paused_b :: stream where
  "s_paused_b = s_started_b\<lparr> openListener := False, pstate := Paused, waiting := \<infinity>,
     paused_enabled := True, paused_pending := Some [], paused_callback := True,
     events := [EvOpen open_a], ticks := [] \<rparr>"

lemma start_reaches_b: "start env0 opts0 nonce_b (init_stream id_b) = Inr s_started_b"
  by (simp add: eval_defs opts0_def s_started_b_def id_b_def)

lemma open_reaches_b:
  "write_chunk env0 (MAGIC @ [56] @ fk0 @ nonce_a) s_started_b
     = Inr (s_paused_b\<lparr> ticks := [OnOpenTick open_a] \<rparr>)"
  by (simp add: eval_defs s_started_b_def s_paused_b_def open_a_def id_b_def)

theorem paired_hashes_agree_witness:
  "nonce_local (s_paused\<lparr> ticks := [] \<rparr>) = Some nonce_a \<and> nonce_local s_paused_b = Some nonce_b \<and>
   feed (s_paused\<lparr> ticks := [] \<rparr>) = Some fk0 \<and> feed s_paused_b = Some fk0 \<and>
   nonce_hash (outcome (onOpen_callback env0 open_b (s_paused\<lparr> ticks := [] \<rparr>)))
     = Some (hash env0 (nonce_a @ nonce_b)) \<and>
   nonce_reverseHash (outcome (onOpen_callback env0 open_a s_paused_b))
     = nonce_hash (outcome (onOpen_callback env0 open_b (s_paused\<lparr> ticks := [] \<rparr>))) \<and>
   secure (outcome (onHandshake env0 hs_b
     (outcome (onOpen_callback env0 open_b (s_paused\<lparr> ticks := [] \<rparr>))))) \<and>
   secure (outcome (onHandshake env0 hs_a (outcome (onOpen_callback env0 open_a s_paused_b))))"
proof -
  have honest: "\<forall>h. chain_verify env0 fk0 [] h (sign env0 h sk0)"
    by (simp add: env0_fields sk0_def fk0_def)
  have hb: "hs_b = \<lparr> hs_id = local_id s_paused_b, hs_extensions = [],
                    hs_signature = sign env0 (hash env0 (nonce_b @ nonce_a)) sk0, hs_chain = [] \<rparr>"
    by (simp add: hs_b_def s_paused_b_def s_started_b_def init_stream_def id_b_def env0_fields
        nonce_a_def nonce_b_def sk0_def fk0_def)
  have ha: "hs_a = \<lparr> hs_id = local_id (s_paused\<lparr> ticks := [] \<rparr>), hs_extensions = [],
                    hs_signature = sign env0 (hash env0 (nonce_a @ nonce_b)) sk0, hs_chain = [] \<rparr>"
    by (simp add: hs_a_def s_paused_def s_started_def init_stream_def env0_fields
        nonce_a_def nonce_b_def sk0_def fk0_def)
  have pa: "nonce_local (s_paused\<lparr> ticks := [] \<rparr>) = Some nonce_a"
    "feed (s_paused\<lparr> ticks := [] \<rparr>) = Some fk0" "feedKey (s_paused\<lparr> ticks := [] \<rparr>) = Some fk0"
    "hyperchain (s_paused\<lparr> ticks := [] \<rparr>) = Some fk0"
    "privateKey (s_paused\<lparr> ticks := [] \<rparr>) = Some sk0"
    "local_chain (s_paused\<lparr> ticks := [] \<rparr>) = Some []" "xor_self (s_paused\<lparr> ticks := [] \<rparr>) \<noteq> None"
    by (simp_all add: s_paused_def s_started_def init_stream_def)
  have pb: "nonce_local s_paused_b = Some nonce_b"
    "feed s_paused_b = Some fk0" "feedKey s_paused_b = Some fk0" "hyperchain s_paused_b = Some fk0"
    "privateKey s_paused_b = Some sk0" "local_chain s_paused_b = Some []"
    "xor_self s_paused_b \<noteq> None"
    by (simp_all add: s_paused_b_def s_started_b_def init_stream_def)
  note T = paired_hashes_agree [OF pa pb honest honest evolves_refl evolves_refl]
  have main: "nonce_hash (outcome (onOpen_callback env0 open_b (s_paused\<lparr> ticks := [] \<rparr>)))
     = Some (hash env0 (nonce_a @ nonce_b)) \<and>
   nonce_reverseHash (outcome (onOpen_callback env0 open_a s_paused_b))
     = nonce_hash (outcome (onOpen_callback env0 open_b (s_paused\<lparr> ticks := [] \<rparr>))) \<and>
   secure (outcome (onHandshake env0 hs_b
     (outcome (onOpen_callback env0 open_b (s_paused\<lparr> ticks := [] \<rparr>))))) \<and>
   secure (outcome (onHandshake env0 hs_a (outcome (onOpen_callback env0 open_a s_paused_b))))"
    using T unfolding Let_def ha [symmetric] hb [symmetric] open_a_def open_b_def by simp
  have "nonce_local (s_paused\<lparr> ticks := [] \<rparr>) = Some nonce_a \<and>
    nonce_local s_paused_b = Some nonce_b \<and>
    feed (s_paused\<lparr> ticks := [] \<rparr>) = Some fk0 \<and> feed s_paused_b = Some fk0"
    by (simp add: s_paused_def s_started_def s_paused_b_def s_started_b_def init_stream_def)
  with main show ?thesis by simp
qed


subsection \<open>C4: the queued sends on the wire\<close>

text \<open>The frames the engine pushes of its own accord before the session is secure are its
  \<open>Open\<close> and its \<open>Handshake\<close>; the one it may push once it is secure is a \<open>Link\<close>.\<close>

fun own_handshake :: "wire \<Rightarrow> bool" where
  "own_handshake (WFrame i (Handshake b)) = (i = HANDSHAKE)"
| "own_handshake w = False"

fun before_secure :: "wire \<Rightarrow> bool" where
  "before_secure (WOpen m) = True"
| "before_secure w = own_handshake w"

fun link_tail :: "wire list \<Rightarrow> bool" where
  "link_tail [] = True"
| "link_tail [WFrame i (Link b)] = (i = LINK)"
| "link_tail ws = False"

fun link_frame :: "wire \<Rightarrow> bool" where
  "link_frame (WFrame i (Link b)) = (i = LINK)"
| "link_frame w = False"

text \<open>The entry a call of the send API adds to the queue before \<open>secure\<close>: none when
  \<open>Type.encodingLength\<close> throws.\<close>

fun send_of :: "action \<Rightarrow> (nat \<times> content \<times> nat option) list" where
  "send_of (CallSync body callback) =
     (if encodable (Sync body) then [(SYNC, Sync body, callback)] else [])"
| "send_of (CallFilterOptions body callback) =
     (if encodable (FilterOptions body) then [(FILTER_OPTIONS, FilterOptions body, callback)] else [])"
| "send_of (CallData body callback) =
     (if encodable (Data body) then [(DATA, Data body, callback)] else [])"
| "send_of (CallRequest body callback) =
     (if encodable (Request body) then [(REQUEST, Request body, callback)] else [])"
| "send_of a = []"

definition sends_of :: "action list \<Rightarrow> (nat \<times> content \<times> nat option) list" where
  "sends_of acts = concat (map send_of acts)"

fun item_ok :: "nat \<times> content \<times> nat option \<Rightarrow> bool" where
  "item_ok (i, c, callback) = encodable c"

text \<open>A session that is not secure yet, with \<open>q\<close> in its queue.\<close>

definition awaiting :: "(nat \<times> content \<times> nat option) list \<Rightarrow> stream \<Rightarrow> bool" where
  "awaiting q s =
     (\<not> secure s \<and> queue s = Some q \<and> list_all item_ok q \<and>
      list_all before_secure (pushed s) \<and>
      (nonce_local s \<noteq> None \<longrightarrow>
         privateKey s \<noteq> None \<and> xor_self s \<noteq> None \<and> feedKey s \<noteq> None) \<and>
      (nonce_reverseHash s \<noteq> None \<longrightarrow>
         xor_self s \<noteq> None \<and> list_ex own_handshake (pushed s)))"

text \<open>A secure session that has put the queue \<open>q\<close> on the wire.\<close>

definition flushed :: "(nat \<times> content \<times> nat option) list \<Rightarrow> stream \<Rightarrow> bool" where
  "flushed q s =
     (secure s \<and> queue s = None \<and>
      (\<exists>pre lnk. pushed s = pre @ map frame_of q @ lnk \<and> list_all before_secure pre \<and>
         list_ex own_handshake pre \<and> link_tail lnk))"

definition in_order :: "(nat \<times> content \<times> nat option) list \<Rightarrow> stream \<Rightarrow> bool" where
  "in_order q s = (awaiting q s \<or> flushed q s)"

lemma awaiting_update [simp]:
  shows
    "awaiting q (s\<lparr> local_id := x0 \<rparr>) = awaiting q s"
    "awaiting q (s\<lparr> feed := x2 \<rparr>) = awaiting q s"
    "awaiting q (s\<lparr> local_chain := x4 \<rparr>) = awaiting q s"
    "awaiting q (s\<lparr> hyperchain := x6 \<rparr>) = awaiting q s"
    "awaiting q (s\<lparr> startCallback := x7 \<rparr>) = awaiting q s"
    "awaiting q (s\<lparr> destroyed := x8 \<rparr>) = awaiting q s"
    "awaiting q (s\<lparr> nonce_remote := x10 \<rparr>) = awaiting q s"
    "awaiting q (s\<lparr> nonce_hash := x11 \<rparr>) = awaiting q s"
    "awaiting q (s\<lparr> remote_id := x13 \<rparr>) = awaiting q s"
    "awaiting q (s\<lparr> remote_chain := x14 \<rparr>) = awaiting q s"
    "awaiting q (s\<lparr> openListener := x16 \<rparr>) = awaiting q s"
    "awaiting q (s\<lparr> xor_remote := x18 \<rparr>) = awaiting q s"
    "awaiting q (s\<lparr> pending := x19 \<rparr>) = awaiting q s"
    "awaiting q (s\<lparr> pstate := x20 \<rparr>) = awaiting q s"
    "awaiting q (s\<lparr> waiting := x21 \<rparr>) = awaiting q s"
    "awaiting q (s\<lparr> varint_value := x22 \<rparr>) = awaiting q s"
    "awaiting q (s\<lparr> varint_shift := x23 \<rparr>) = awaiting q s"
    "awaiting q (s\<lparr> gotHandshake := x24 \<rparr>) = awaiting q s"
    "awaiting q (s\<lparr> paused_enabled := x25 \<rparr>) = awaiting q s"
    "awaiting q (s\<lparr> paused_pending := x26 \<rparr>) = awaiting q s"
    "awaiting q (s\<lparr> paused_callback := x27 \<rparr>) = awaiting q s"
    "awaiting q (s\<lparr> events := x29 \<rparr>) = awaiting q s"
    "awaiting q (s\<lparr> ticks := x30 \<rparr>) = awaiting q s"
  by (simp_all add: awaiting_def)

lemma flushed_update [simp]:
  shows
    "flushed q (s\<lparr> local_id := x0 \<rparr>) = flushed q s"
    "flushed q (s\<lparr> feedKey := x1 \<rparr>) = flushed q s"
    "flushed q (s\<lparr> feed := x2 \<rparr>) = flushed q s"
    "flushed q (s\<lparr> privateKey := x3 \<rparr>) = flushed q s"
    "flushed q (s\<lparr> local_chain := x4 \<rparr>) = flushed q s"
    "flushed q (s\<lparr> hyperchain := x6 \<rparr>) = flushed q s"
    "flushed q (s\<lparr> startCallback := x7 \<rparr>) = flushed q s"
    "flushed q (s\<lparr> destroyed := x8 \<rparr>) = flushed q s"
    "flushed q (s\<lparr> nonce_local := x9 \<rparr>) = flushed q s"
    "flushed q (s\<lparr> nonce_remote := x10 \<rparr>) = flushed q s"
    "flushed q (s\<lparr> nonce_hash := x11 \<rparr>) = flushed q s"
    "flushed q (s\<lparr> nonce_reverseHash := x12 \<rparr>) = flushed q s"
    "flushed q (s\<lparr> remote_id := x13 \<rparr>) = flushed q s"
    "flushed q (s\<lparr> remote_chain := x14 \<rparr>) = flushed q s"
    "flushed q (s\<lparr> openListener := x16 \<rparr>) = flushed q s"
    "flushed q (s\<lparr> xor_self := x17 \<rparr>) = flushed q s"
    "flushed q (s\<lparr> xor_remote := x18 \<rparr>) = flushed q s"
    "flushed q (s\<lparr> pending := x19 \<rparr>) = flushed q s"
    "flushed q (s\<lparr> pstate := x20 \<rparr>) = flushed q s"
    "flushed q (s\<lparr> waiting := x21 \<rparr>) = flushed q s"
    "flushed q (s\<lparr> varint_value := x22 \<rparr>) = flushed q s"
    "flushed q (s\<lparr> varint_shift := x23 \<rparr>) = flushed q s"
    "flushed q (s\<lparr> gotHandshake := x24 \<rparr>) = flushed q s"
    "flushed q (s\<lparr> paused_enabled := x25 \<rparr>) = flushed q s"
    "flushed q (s\<lparr> paused_pending := x26 \<rparr>) = flushed q s"
    "flushed q (s\<lparr> paused_callback := x27 \<rparr>) = flushed q s"
    "flushed q (s\<lparr> events := x29 \<rparr>) = flushed q s"
    "flushed q (s\<lparr> ticks := x30 \<rparr>) = flushed q s"
  by (simp_all add: flushed_def)

lemma in_order_update [simp]:
  shows
    "in_order q (s\<lparr> local_id := x0 \<rparr>) = in_order q s"
    "in_order q (s\<lparr> feed := x2 \<rparr>) = in_order q s"
    "in_order q (s\<lparr> local_chain := x4 \<rparr>) = in_order q s"
    "in_order q (s\<lparr> hyperchain := x6 \<rparr>) = in_order q s"
    "in_order q (s\<lparr> startCallback := x7 \<rparr>) = in_order q s"
    "in_order q (s\<lparr> destroyed := x8 \<rparr>) = in_order q s"
    "in_order q (s\<lparr> nonce_remote := x10 \<rparr>) = in_order q s"
    "in_order q (s\<lparr> nonce_hash := x11 \<rparr>) = in_order q s"
    "in_order q (s\<lparr> remote_id := x13 \<rparr>) = in_order q s"
    "in_order q (s\<lparr> remote_chain := x14 \<rparr>) = in_order q s"
    "in_order q (s\<lparr> openListener := x16 \<rparr>) = in_order q s"
    "in_order q (s\<lparr> xor_remote := x18 \<rparr>) = in_order q s"
    "in_order q (s\<lparr> pending := x19 \<rparr>) = in_order q s"
    "in_order q (s\<lparr> pstate := x20 \<rparr>) = in_order q s"
    "in_order q (s\<lparr> waiting := x21 \<rparr>) = in_order q s"
    "in_order q (s\<lparr> varint_value := x22 \<rparr>) = in_order q s"
    "in_order q (s\<lparr> varint_shift := x23 \<rparr>) = in_order q s"
    "in_order q (s\<lparr> gotHandshake := x24 \<rparr>) = in_order q s"
    "in_order q (s\<lparr> paused_enabled := x25 \<rparr>) = in_order q s"
    "in_order q (s\<lparr> paused_pending := x26 \<rparr>) = in_order q s"
    "in_order q (s\<lparr> paused_callback := x27 \<rparr>) = in_order q s"
    "in_order q (s\<lparr> events := x29 \<rparr>) = in_order q s"
    "in_order q (s\<lparr> ticks := x30 \<rparr>) = in_order q s"
  by (simp_all add: in_order_def)

subsubsection \<open>The sends\<close>

lemma secureSend_awaiting:
  "awaiting q s \<Longrightarrow>
     awaiting (q @ (if encodable c then [(i, c, cb)] else [])) (outcome (secureSend i c cb s))"
  by (simp add: secureSend_def awaiting_def)

lemma run_queue_flush:
  "secure s \<Longrightarrow> xor_self s \<noteq> None \<Longrightarrow> list_all item_ok q \<Longrightarrow>
     run_queue q s = Inr (s\<lparr> pushed := pushed s @ map frame_of q,
                              ticks := ticks s @ concat (map callback_of q) \<rparr>)"
proof (induction q arbitrary: s)
  case Nil
  show ?case by simp
next
  case (Cons a q)
  obtain i c cb where a: "a = (i, c, cb)" by (cases a)
  let ?t = "s\<lparr> pushed := pushed s @ [WFrame i c], ticks := ticks s @ callback_of a \<rparr>"
  have t: "secureSend i c cb s = Inr ?t"
    using Cons.prems a by (auto simp: secureSend_def send_def)
  have "run_queue q ?t = Inr (?t\<lparr> pushed := pushed ?t @ map frame_of q,
                              ticks := ticks ?t @ concat (map callback_of q) \<rparr>)"
    using Cons.prems by (intro Cons.IH) simp_all
  then show ?case using t a by simp
qed

lemma issueTrustLink_pushes:
  assumes "secure s"
  shows "\<exists>lnk. link_tail lnk \<and> outcome (issueTrustLink env s) = s\<lparr> pushed := pushed s @ lnk \<rparr>"
proof -
  have ss: "outcome (secureSend LINK (Link b) None s) = s \<or>
        outcome (secureSend LINK (Link b) None s) = s\<lparr> pushed := pushed s @ [WFrame LINK (Link b)] \<rparr>"
    for b
    using assms by (simp add: secureSend_def send_def split: option.splits)
  have "outcome (issueTrustLink env s) = s \<or>
        (\<exists>b. outcome (issueTrustLink env s) = outcome (secureSend LINK (Link b) None s))"
    by (simp add: issueTrustLink_def split: option.splits) blast
  then have "outcome (issueTrustLink env s) = s \<or>
        (\<exists>b. outcome (issueTrustLink env s) = s\<lparr> pushed := pushed s @ [WFrame LINK (Link b)] \<rparr>)"
    using ss by metis
  then show ?thesis
  proof
    assume "outcome (issueTrustLink env s) = s"
    then have "link_tail [] \<and> outcome (issueTrustLink env s) = s\<lparr> pushed := pushed s @ [] \<rparr>"
      by simp
    then show ?thesis by blast
  next
    assume "\<exists>b. outcome (issueTrustLink env s) = s\<lparr> pushed := pushed s @ [WFrame LINK (Link b)] \<rparr>"
    then obtain b where
      "outcome (issueTrustLink env s) = s\<lparr> pushed := pushed s @ [WFrame LINK (Link b)] \<rparr>" ..
    then have "link_tail [WFrame LINK (Link b)] \<and>
        outcome (issueTrustLink env s) = s\<lparr> pushed := pushed s @ [WFrame LINK (Link b)] \<rparr>"
      by simp
    then show ?thesis by blast
  qed
qed

subsubsection \<open>The handlers\<close>

lemma onHandshake_awaiting:
  assumes "awaiting q s"
  shows "in_order q (outcome (onHandshake env body s))"
proof -
  let ?s1 = "s\<lparr> remote_id := Some (hs_id body), remote_chain := Some (hs_chain body),
                  secure := True,
                  events := events s @ [EvSecure (hs_id body) (hs_chain body)] \<rparr>"
  let ?s2 = "?s1\<lparr> queue := None, pushed := pushed s @ map frame_of q,
                   ticks := ticks s @ concat (map callback_of q) \<rparr>"
  have same: "in_order q s" using assms by (simp add: in_order_def)
  show ?thesis
  proof (cases "\<exists>rootKey rh. hyperchain s = Some rootKey \<and> nonce_reverseHash s = Some rh \<and>
                  chain_verify env rootKey (hs_chain body) rh (hs_signature body)")
    case False
    then have "outcome (onHandshake env body s) = s"
      by (auto simp: onHandshake_def split: option.splits)
    then show ?thesis using same by simp
  next
    case True
    then have x: "xor_self s \<noteq> None" "list_ex own_handshake (pushed s)"
      using assms by (auto simp: awaiting_def)
    have q: "queue s = Some q" "list_all item_ok q" "list_all before_secure (pushed s)"
      using assms by (auto simp: awaiting_def)
    have "run_queue q (?s1\<lparr> queue := None \<rparr>)
        = Inr (?s1\<lparr> queue := None \<rparr>\<lparr> pushed := pushed (?s1\<lparr> queue := None \<rparr>) @ map frame_of q,
                 ticks := ticks (?s1\<lparr> queue := None \<rparr>) @ concat (map callback_of q) \<rparr>)"
      using x(1) q(2) by (intro run_queue_flush) simp_all
    then have d: "drainQueue ?s1 = Inr ?s2"
      using q(1) by (simp add: drainQueue_def)
    have o: "outcome (onHandshake env body s) = outcome (issueTrustLink env ?s2)"
      using True d by (auto simp: onHandshake_def)
    obtain lnk where lnk: "link_tail lnk"
      "outcome (issueTrustLink env ?s2) = ?s2\<lparr> pushed := pushed ?s2 @ lnk \<rparr>"
      using issueTrustLink_pushes [of ?s2 env] by auto
    have "flushed q (?s2\<lparr> pushed := pushed ?s2 @ lnk \<rparr>)"
      using lnk(1) x(2) q(3) by (auto simp: flushed_def)
    then show ?thesis using o lnk(2) by (simp add: in_order_def)
  qed
qed

lemma onHandshake_flushed:
  "flushed q s \<Longrightarrow> flushed q (outcome (onHandshake env body s))"
  by (auto simp: onHandshake_def drainQueue_def flushed_def split: option.splits)

lemma onHandshake_in_order: "in_order q s \<Longrightarrow> in_order q (outcome (onHandshake env body s))"
  using onHandshake_awaiting [of q s env body] onHandshake_flushed [of q s env body]
  by (auto simp: in_order_def)

lemma onLink_in_order: "in_order q (outcome (onLink env body s)) = in_order q s"
  by (auto simp: onLink_def Let_def split: option.splits)

lemma dispatch_in_order: "in_order q s \<Longrightarrow> in_order q (outcome (dispatch env i msg off s))"
  by (simp add: dispatch_def onData_def emit_message_def onLink_in_order onHandshake_in_order
      split: option.splits)

subsubsection \<open>The parser\<close>

lemma parseLength_in_order: "in_order q (outcome_p (parseLength s)) = in_order q s"
proof (induction s rule: parseLength.induct)
  case (1 s)
  show ?case
  proof (cases "pending s")
    case Nil
    then show ?thesis by (simp add: parseLength.simps [of s])
  next
    case (Cons b bs)
    let ?s1 = "s\<lparr> pending := bs,
       varint_value := varint_value s OR push_bit (varint_shift s mod 32) (ucast (b AND 0x7f)),
       varint_shift := varint_shift s + 7 \<rparr>"
    show ?thesis
    proof (cases "\<not> 25 \<le> varint_shift ?s1 \<and> b AND 0x80 \<noteq> 0")
      case True
      then have "parseLength s = parseLength ?s1"
        using Cons by (simp add: parseLength.simps [of s] Let_def)
      moreover have "in_order q (outcome_p (parseLength ?s1)) = in_order q ?s1"
        using "1.IH" [OF Cons refl refl refl] True by simp
      ultimately show ?thesis by simp
    next
      case False
      then show ?thesis using Cons
        by (auto simp: parseLength.simps [of s] Let_def setState_def)
    qed
  qed
qed

lemma parse_in_order: "in_order q s \<Longrightarrow> in_order q (outcome_p (parse env s))"
proof -
  assume ok: "in_order q s"
  have magic: "in_order q (outcome_p (parseMagic s)) = in_order q s"
    by (simp add: parseMagic_def take_pending_def setState_def)
  have op: "in_order q (outcome_p (parseOpen env s)) = in_order q s"
    by (simp add: parseOpen_def take_pending_def setState_def Let_def emit_open_def onOpen_def
        onStart_def split: enat.splits option.splits)
  have msg: "in_order q (outcome_p (parseMessage env s))"
  proof (cases "take_pending (waiting s) s")
    case (Inl e)
    then show ?thesis using ok
      by (cases e) (auto simp: parseMessage_def take_pending_def split: enat.splits if_splits)
  next
    case (Inr r)
    obtain m s0 where r: "r = (m, s0)" by (cases r)
    obtain n where s0: "s0 = s\<lparr>pending := drop n (pending s)\<rparr>"
      using Inr r by (auto simp: take_pending_def split: enat.splits if_splits)
    let ?s1 = "setState MsgLength (enat 1) s0"
    have ok1: "in_order q (?s1\<lparr>gotHandshake := True\<rparr>)" "in_order q ?s1"
      using ok by (simp_all add: s0 setState_def)
    show ?thesis
    proof (cases "varint_decode env m")
      case None
      then show ?thesis using Inr r ok1 by (simp add: parseMessage_def)
    next
      case (Some a)
      obtain i off where a: "a = (i, off)" by (cases a)
      show ?thesis
        using Inr r Some a ok1 dispatch_in_order [OF ok1(1), of env i m off]
        by (cases "dispatch env i m off (?s1\<lparr>gotHandshake := True\<rparr>)")
           (auto simp: parseMessage_def Let_def)
    qed
  qed
  show ?thesis
    using ok magic op msg parseLength_in_order [of q s] by (simp add: parse_def)
qed

lemma process_in_order: "in_order q s \<Longrightarrow> in_order q (outcome (process env s))"
proof -
  assume "in_order q s"
  then have "in_order q (outcome (process_loop env s))"
    using process_loop_keeps [of "in_order q" env s] parse_in_order by blast
  then show ?thesis
    by (cases "process_loop env s") (auto simp: process_def)
qed

lemma write_chunk_in_order: "in_order q s \<Longrightarrow> in_order q (outcome (write_chunk env chunk s))"
  by (simp add: write_chunk_def process_in_order split: option.splits prod.splits)

lemma resumeParsing_in_order: "in_order q s \<Longrightarrow> in_order q (outcome (resumeParsing env s))"
  by (simp add: resumeParsing_def Let_def setState_def process_in_order
      split: option.splits prod.splits)

subsubsection \<open>Opening and starting\<close>

lemma onOpen_callback_in_order:
  assumes "awaiting q s"
  shows "in_order q (outcome (onOpen_callback env m s))"
proof -
  have same: "in_order q s" using assms by (simp add: in_order_def)
  show ?thesis
  proof (cases "\<exists>f l. feed s = Some f \<and> op_feed m = f \<and> nonce_local s = Some l")
    case False
    then show ?thesis using same
      by (auto simp: onOpen_callback_def Let_def split: option.splits)
  next
    case True
    then obtain f l where f: "feed s = Some f" "op_feed m = f" "nonce_local s = Some l" by blast
    then obtain pk x k where k: "privateKey s = Some pk" "xor_self s = Some x" "feedKey s = Some k"
      using assms by (auto simp: awaiting_def)
    let ?s3 = "s\<lparr> nonce_hash := Some (hash env (l @ op_nonce m)),
                   nonce_reverseHash := Some (hash env (op_nonce m @ l)), nonce_local := None,
                   nonce_remote := None, xor_remote := Some (op_nonce m, k, 0) \<rparr>"
    let ?h = "Handshake \<lparr> hs_id = local_id s, hs_extensions = [],
                hs_signature = sign env (hash env (l @ op_nonce m)) pk,
                hs_chain = (case local_chain s of None \<Rightarrow> [] | Some c \<Rightarrow> c) \<rparr>"
    let ?s4 = "?s3\<lparr> pushed := pushed s @ [WFrame HANDSHAKE ?h] \<rparr>"
    have o: "outcome (onOpen_callback env m s) = outcome (resumeParsing env ?s4)"
      using f k by (simp add: onOpen_callback_def Let_def handshake_def send_def)
    have "awaiting q ?s4"
      using assms k by (simp add: awaiting_def)
    then have "in_order q ?s4" by (simp add: in_order_def)
    then show ?thesis using o resumeParsing_in_order by simp
  qed
qed

lemma start_awaiting: "awaiting q s \<Longrightarrow> awaiting q (outcome (start env options rnd s))"
  by (auto simp: start_def stream_open_def Let_def awaiting_def split: option.splits)

subsubsection \<open>The session\<close>

lemma step_in_order:
  assumes "awaiting q s"
  shows "awaiting (q @ send_of a) (outcome (step env a s)) \<or> flushed q (outcome (step env a s))"
proof (cases a)
  case (Start options rnd)
  then show ?thesis using start_awaiting [OF assms] by simp
next
  case (WriteChunk chunk)
  then show ?thesis
    using write_chunk_in_order [of q s env chunk] assms by (simp add: in_order_def)
next
  case Tick
  show ?thesis
  proof (cases "ticks s")
    case Nil
    then show ?thesis using Tick assms by (simp add: run_tick_def)
  next
    case (Cons t ts)
    show ?thesis
    proof (cases t)
      case (OnOpenTick m)
      have "awaiting q (s\<lparr> ticks := ts \<rparr>)" using assms by simp
      from onOpen_callback_in_order [OF this, of env m] show ?thesis
        using Tick Cons OnOpenTick by (simp add: run_tick_def in_order_def)
    next
      case (SendCallback k)
      then show ?thesis using Tick Cons assms by (simp add: run_tick_def)
    qed
  qed
next
  case (CallSync body callback)
  then show ?thesis using secureSend_awaiting [OF assms, of "Sync body" SYNC callback]
    by (simp add: sync_def)
next
  case (CallFilterOptions body callback)
  then show ?thesis
    using secureSend_awaiting [OF assms, of "FilterOptions body" FILTER_OPTIONS callback]
    by (simp add: filterOptions_def)
next
  case (CallData body callback)
  then show ?thesis using secureSend_awaiting [OF assms, of "Data body" DATA callback]
    by (simp add: data_def)
next
  case (CallRequest body callback)
  then show ?thesis using secureSend_awaiting [OF assms, of "Request body" REQUEST callback]
    by (simp add: request_def)
next
  case Destroy
  then show ?thesis using assms by (simp add: destroy_def)
qed

text \<open>A secure session stays secure.\<close>

lemma onOpen_callback_secure: "secure s \<Longrightarrow> secure (outcome (onOpen_callback env m s))"
proof -
  assume s: "secure s"
  have "secure (outcome (case handshake env t of Inl e \<Rightarrow> Inl e | Inr s4 \<Rightarrow> resumeParsing env s4))"
    if "secure t" for t
  proof (cases "handshake env t")
    case (Inl e)
    then show ?thesis using that
      by (cases e) (auto simp: handshake_def send_def split: option.splits if_splits)
  next
    case (Inr s4)
    then have "secure s4" using that
      by (auto simp: handshake_def send_def split: option.splits if_splits)
    then show ?thesis using Inr resumeParsing_evolves [of s4 env] by (simp add: evolves_def)
  qed
  then show ?thesis using s
    by (simp add: onOpen_callback_def Let_def split: option.splits)
qed

lemma step_secure: "secure s \<Longrightarrow> secure (outcome (step env a s))"
proof (cases a)
  case (Start options rnd)
  then show "secure s \<Longrightarrow> ?thesis"
    by (simp add: start_def stream_open_def Let_def split: option.splits)
next
  case (WriteChunk chunk)
  then show "secure s \<Longrightarrow> ?thesis"
    using write_chunk_evolves [of s env chunk] by (simp add: evolves_def)
next
  case Tick
  then show "secure s \<Longrightarrow> ?thesis"
    using onOpen_callback_secure [of "s\<lparr>ticks := tl (ticks s)\<rparr>" env]
    by (auto simp: run_tick_def split: list.splits tick.splits)
qed (use secureSend_evolves [of s] in
      \<open>simp_all add: sync_def filterOptions_def data_def request_def destroy_def evolves_def\<close>)

lemma exec_snoc: "exec env (acts @ [a]) s = outcome (step env a (exec env acts s))"
  by (induction acts arbitrary: s) simp_all

lemma exec_awaiting:
  "\<not> secure (exec env acts (init_stream i)) \<Longrightarrow>
     awaiting (sends_of acts) (exec env acts (init_stream i))"
proof (induction acts rule: rev_induct)
  case Nil
  show ?case by (simp add: awaiting_def sends_of_def init_stream_def)
next
  case (snoc a acts)
  let ?s = "exec env acts (init_stream i)"
  have ns: "\<not> secure (outcome (step env a ?s))" using snoc.prems by (simp add: exec_snoc)
  then have "\<not> secure ?s" using step_secure by blast
  then have "awaiting (sends_of acts) ?s" by (rule snoc.IH)
  from step_in_order [OF this, of a env] ns
  have "awaiting (sends_of acts @ send_of a) (outcome (step env a ?s))"
    by (auto simp: flushed_def)
  then show ?case by (simp add: exec_snoc sends_of_def)
qed

text \<open>In the model no listener runs, and what a session has pushed when it has become
  secure is exactly: frames of its own, each an \<open>Open\<close> or a \<open>Handshake\<close>; the queued frames;
  nothing more, or one \<open>Link\<close>. A listener of \<open>secure\<close> that calls the send API would have
  its frames pushed after the \<open>Handshake\<close> and before the queue is run. So the claim is
  stated as an order, which such frames do not disturb: where the queued frames are with
  respect to the \<open>Handshake\<close> and to the \<open>Link\<close>.\<close>

lemma before_secure_no_link: "before_secure w \<Longrightarrow> \<not> link_frame w"
  by (cases w rule: link_frame.cases) simp_all

lemma link_tail_no_handshake: "link_tail ws \<Longrightarrow> \<not> list_ex own_handshake ws"
  by (cases ws rule: link_tail.cases) simp_all

lemma send_of_frames:
  "x \<in> set (send_of a) \<Longrightarrow> \<not> own_handshake (frame_of x) \<and> \<not> link_frame (frame_of x)"
  by (cases a) (auto split: if_splits)

lemma sends_of_frames:
  "\<not> list_ex own_handshake (map frame_of (sends_of acts)) \<and>
   \<not> list_ex link_frame (map frame_of (sends_of acts))"
  using send_of_frames by (fastforce simp: sends_of_def list_ex_iff)

text \<open>C4, as the code has it. Take a session from its construction through any calls of its
  API, chunks and ticks \<open>acts\<close> that leave it not secure, and let the next action make it
  secure and take its queue (\<open>secure\<close> is set and \<open>_queue\<close> is null). Then the frames of the
  sends accepted so far are on the wire, together and in the order of the calls; the
  engine's own \<open>Handshake\<close> is before them, and no \<open>Link\<close> is; no \<open>Handshake\<close> is after them, so
  that a \<open>Link\<close>, when the engine issues one, comes after them. None of them is itself a
  \<open>Handshake\<close> or a \<open>Link\<close>.\<close>

theorem queued_frames_order:
  assumes "\<not> secure (exec env acts (init_stream i))"
    and "secure (outcome (step env a (exec env acts (init_stream i))))"
    and "queue (outcome (step env a (exec env acts (init_stream i)))) = None"
  shows "\<exists>pre post.
     pushed (outcome (step env a (exec env acts (init_stream i))))
       = pre @ map frame_of (sends_of acts) @ post \<and>
     list_ex own_handshake pre \<and> \<not> list_ex link_frame pre \<and>
     \<not> list_ex own_handshake post \<and>
     \<not> list_ex own_handshake (map frame_of (sends_of acts)) \<and>
     \<not> list_ex link_frame (map frame_of (sends_of acts))"
proof -
  let ?s' = "outcome (step env a (exec env acts (init_stream i)))"
  have "awaiting (sends_of acts) (exec env acts (init_stream i))"
    using assms(1) by (rule exec_awaiting)
  from step_in_order [OF this, of a env] assms(2)
  have "flushed (sends_of acts) ?s'"
    by (auto simp: awaiting_def)
  then obtain pre lnk where p: "pushed ?s' = pre @ map frame_of (sends_of acts) @ lnk"
    "list_all before_secure pre" "list_ex own_handshake pre" "link_tail lnk"
    by (auto simp: flushed_def)
  have "\<not> list_ex link_frame pre"
    using p(2) before_secure_no_link by (auto simp: list_all_iff list_ex_iff)
  moreover have "\<not> list_ex own_handshake lnk"
    using p(4) by (rule link_tail_no_handshake)
  ultimately show ?thesis using p(1,3) sends_of_frames [of acts] by blast
qed


text \<open>A run: \<open>request\<close> is called before \<open>start\<close>, the peer's \<open>Open\<close> arrives, the tick runs,
  and the peer's \<open>Handshake\<close> arrives with a chain of two links against the empty local one,
  so that a \<open>Link\<close> is issued.\<close>

definition queue_a :: "(nat \<times> content \<times> nat option) list" where
  "queue_a = [(REQUEST, Request request_a, None)]"

definition hs_b2_frame :: "buffer \<times> buffer" where
  "hs_b2_frame = ([0xA1, 0x01],
     [0] @ replicate 32 5 @ ((replicate 24 1 @ replicate 8 2) @ replicate 32 4)
       @ replicate 32 3 @ replicate 32 4)"

definition acts_a :: "action list" where
  "acts_a = [CallRequest request_a None, Start opts0 nonce_a, WriteChunk open_b_chunk, Tick]"

definition s_flushed :: stream where
  "s_flushed = s_secure2\<lparr> gotHandshake := True, xor_remote := Some (nonce_b, fk0, 163),
     pushed := [WOpen \<lparr> op_feed = fk0, op_nonce = nonce_a \<rparr>, WFrame HANDSHAKE (Handshake hs_a),
                WFrame REQUEST (Request request_a),
                WFrame LINK (Link \<lparr> lk_link = replicate 32 4 \<rparr>)] \<rparr>"

lemma request_reaches_q:
  "request request_a None (init_stream id0) = Inr ((init_stream id0)\<lparr> queue := Some queue_a \<rparr>)"
  by (simp add: request_def secureSend_def init_stream_def request_a_def queue_a_def)

lemma start_reaches_q:
  "start env0 opts0 nonce_a ((init_stream id0)\<lparr> queue := Some queue_a \<rparr>)
     = Inr (s_started\<lparr> queue := Some queue_a \<rparr>)"
  by (simp add: eval_defs opts0_def s_started_def)

lemma open_reaches_q:
  "write_chunk env0 open_b_chunk (s_started\<lparr> queue := Some queue_a \<rparr>)
     = Inr (s_paused\<lparr> queue := Some queue_a \<rparr>)"
  by (simp add: eval_defs s_started_def s_paused_def open_b_chunk_def open_b_def)

lemma tick_reaches_q:
  "run_tick env0 (s_paused\<lparr> queue := Some queue_a \<rparr>) = Inr (s_resumed\<lparr> queue := Some queue_a \<rparr>)"
  by (simp add: eval_defs s_started_def s_paused_def s_resumed_def open_b_def hs_a_def)

lemma acts_a_reaches: "exec env0 acts_a (init_stream id0) = s_resumed\<lparr> queue := Some queue_a \<rparr>"
  by (simp add: acts_a_def request_reaches_q start_reaches_q open_reaches_q tick_reaches_q)

lemma handshake2_chunk_reaches:
  "write_chunk env0 (wire_bytes [hs_b2_frame]) (s_resumed\<lparr> queue := Some queue_a \<rparr>) = Inr s_flushed"
  by (simp add: eval_defs s_started_def s_paused_def s_resumed_def s_secure2_def s_flushed_def
      hs_b2_frame_def wire_bytes_def open_b_def hs_a_def queue_a_def request_a_def)

theorem queued_frames_order_witness:
  "\<not> secure (exec env0 acts_a (init_stream id0)) \<and>
   secure (outcome (step env0 (WriteChunk (wire_bytes [hs_b2_frame]))
     (exec env0 acts_a (init_stream id0)))) \<and>
   queue (outcome (step env0 (WriteChunk (wire_bytes [hs_b2_frame]))
     (exec env0 acts_a (init_stream id0)))) = None \<and>
   sends_of acts_a = [(REQUEST, Request request_a, None)] \<and>
   (\<exists>pre post.
     pushed (outcome (step env0 (WriteChunk (wire_bytes [hs_b2_frame]))
       (exec env0 acts_a (init_stream id0))))
       = pre @ map frame_of (sends_of acts_a) @ post \<and>
     list_ex own_handshake pre \<and> \<not> list_ex link_frame pre \<and>
     \<not> list_ex own_handshake post \<and>
     \<not> list_ex own_handshake (map frame_of (sends_of acts_a)) \<and>
     \<not> list_ex link_frame (map frame_of (sends_of acts_a)))"
proof -
  have n: "\<not> secure (exec env0 acts_a (init_stream id0))"
    unfolding acts_a_reaches
    by (simp add: s_resumed_def s_paused_def s_started_def init_stream_def)
  have y: "secure (outcome (step env0 (WriteChunk (wire_bytes [hs_b2_frame]))
     (exec env0 acts_a (init_stream id0))))"
    "queue (outcome (step env0 (WriteChunk (wire_bytes [hs_b2_frame]))
     (exec env0 acts_a (init_stream id0)))) = None"
    by (simp_all add: acts_a_reaches handshake2_chunk_reaches s_flushed_def s_secure2_def)
  have q: "sends_of acts_a = [(REQUEST, Request request_a, None)]"
    by (simp add: sends_of_def acts_a_def request_a_def)
  from queued_frames_order [OF n y] n y q show ?thesis by simp
qed

text \<open>C4 as stated fails: in this run the \<open>Link\<close> the engine issues in the transition comes
  after the queued \<open>Request\<close>, not before it. (A listener of \<open>secure\<close> has no part in it:
  \<open>_onHandshake\<close> runs the queue before it looks whether a \<open>Link\<close> is needed.)\<close>

theorem link_after_queued_counterexample:
  "sends_of acts_a = [(REQUEST, Request request_a, None)] \<and>
   pushed (exec env0 (acts_a @ [WriteChunk (wire_bytes [hs_b2_frame])]) (init_stream id0))
     = [WOpen \<lparr> op_feed = fk0, op_nonce = nonce_a \<rparr>, WFrame HANDSHAKE (Handshake hs_a),
        WFrame REQUEST (Request request_a),
        WFrame LINK (Link \<lparr> lk_link = replicate 32 4 \<rparr>)]"
proof -
  have "sends_of acts_a = [(REQUEST, Request request_a, None)]"
    by (simp add: sends_of_def acts_a_def request_a_def)
  moreover have "exec env0 (acts_a @ [WriteChunk (wire_bytes [hs_b2_frame])]) (init_stream id0)
      = s_flushed"
    by (simp add: exec_snoc acts_a_reaches handshake2_chunk_reaches)
  ultimately show ?thesis by (simp add: s_flushed_def)
qed

end
